theory Spec2Isabelle
  imports Main "HOL-Library.Sublist"
begin

section \<open>Python strings\<close>

text \<open>
  A Python \<open>str\<close> is modelled as a \<open>string\<close> whose characters stand for the code points
  below 256. \<open>py_isspace\<close> is \<open>str.isspace\<close> on one such code point; it is also the class
  \<open>\s\<close> of the \<open>re\<close> module on \<open>str\<close> patterns, and the set that \<open>str.strip()\<close> removes.
\<close>

definition py_isspace :: "char \<Rightarrow> bool" where
  "py_isspace c =
     (let n = (of_char c :: nat)
      in (9 \<le> n \<and> n \<le> 13) \<or> (28 \<le> n \<and> n \<le> 32) \<or> n = 133 \<or> n = 160)"

text \<open>The class \<open>\d\<close> of the \<open>re\<close> module, on one such code point.\<close>

definition re_digit :: "char \<Rightarrow> bool" where
  "re_digit c = (let n = (of_char c :: nat) in 48 \<le> n \<and> n \<le> 57)"

text \<open>\<open>sep.join(xs)\<close>.\<close>

fun py_join :: "string \<Rightarrow> string list \<Rightarrow> string" where
  "py_join sep [] = []"
| "py_join sep [x] = x"
| "py_join sep (x # y # ys) = x @ sep @ py_join sep (y # ys)"

text \<open>\<open>s.rstrip(chars)\<close>, \<open>s.lstrip()\<close> and \<open>s.strip()\<close>.\<close>

definition py_rstrip :: "(char \<Rightarrow> bool) \<Rightarrow> string \<Rightarrow> string" where
  "py_rstrip p s = rev (dropWhile p (rev s))"

definition py_strip :: "string \<Rightarrow> string" where
  "py_strip s = py_rstrip py_isspace (dropWhile py_isspace s)"

text \<open>\<open>s.split(c)\<close> for a separator of one character: never the empty list.\<close>

fun py_split :: "char \<Rightarrow> string \<Rightarrow> string list" where
  "py_split c [] = [[]]"
| "py_split c (x # xs) =
     (if x = c then [] # py_split c xs
      else (case py_split c xs of
              [] \<Rightarrow> [[x]]
            | line # lines \<Rightarrow> (x # line) # lines))"

text \<open>\<open>str(n)\<close> for an integer: decimal digits, with a minus sign when negative.\<close>

definition digit_char :: "nat \<Rightarrow> char" where
  "digit_char d = ''0123456789'' ! d"

function str_nat :: "nat \<Rightarrow> string" where
  "str_nat n = (if n < 10 then [digit_char n] else str_nat (n div 10) @ [digit_char (n mod 10)])"
  by pat_completeness auto
termination
  by (relation "measure (\<lambda>n. n)") auto

declare str_nat.simps [simp del]

definition str_int :: "int \<Rightarrow> string" where
  "str_int i = (if i < 0 then CHR ''-'' # str_nat (nat (- i)) else str_nat (nat i))"

text \<open>Truthiness of an \<open>Optional[str]\<close>: \<open>None\<close> and the empty string are false.\<close>

definition truthy :: "string option \<Rightarrow> bool" where
  "truthy v = (case v of None \<Rightarrow> False | Some s \<Rightarrow> s \<noteq> [])"

section \<open>PaperInfo\<close>

record paper_info =
  title :: string
  authors :: "string list"
  venue :: string
  year :: string
  arxiv_id :: "string option"
  doi :: "string option"
  pdf_url :: "string option"
  citations :: "int option"

definition format_authors :: "paper_info \<Rightarrow> nat \<Rightarrow> string" where
  "format_authors p max_authors =
     (if length (authors p) \<le> max_authors then py_join '', '' (authors p)
      else py_join '', '' (take max_authors (authors p)) @ '' et al.'')"

definition to_markdown :: "paper_info \<Rightarrow> string option \<Rightarrow> string" where
  "to_markdown p local_pdf_path =
     (let result = ''**'' @ title p @ ''**. '' @ format_authors p 3 @ ''. '' @ venue p
                   @ '', '' @ year p;
          links = (if truthy local_pdf_path then [''[PDF]('' @ the local_pdf_path @ '')''] else [])
                @ (if truthy (arxiv_id p)
                   then [''[arXiv](https://arxiv.org/abs/'' @ the (arxiv_id p) @ '')''] else [])
                @ (if truthy (doi p)
                   then [''[DOI](https://doi.org/'' @ the (doi p) @ '')''] else []);
          citation_str = (case citations p of
                            Some n \<Rightarrow> ''Citations: '' @ str_int n
                          | None \<Rightarrow> ''Citations: N/A'');
          result = (if links \<noteq> []
                    then result @ '' '' @ py_join '' '' (map (\<lambda>link. ''('' @ link @ '')'') links)
                    else result)
      in result @ '' ('' @ citation_str @ '')'')"

section \<open>SemanticScholarAPI: requests with retry\<close>

text \<open>
  One call of \<open>requests.get\<close> either raises (timeout, connection error) or gives a response
  with a status code; \<open>response.json()\<close> then gives the decoded body or raises, which is
  the body \<open>None\<close> here. The transport is a function from the attempt number to what that
  attempt gives.
\<close>

datatype 'a http_result = Response nat "'a option" | Raises

record 'a request_outcome =
  returned :: "'a option"
  slept :: "nat list"
  requests_made :: nat

text \<open>
  The loop \<open>for attempt in range(max_retries)\<close>, entered at \<open>attempt\<close> with the sleeps so
  far. The handler of \<open>except Exception\<close> sleeps 2 seconds unless the attempt is the last
  one, and the loop goes on to the next attempt either way.
\<close>

function request_loop ::
  "(nat \<Rightarrow> 'a http_result) \<Rightarrow> nat \<Rightarrow> nat \<Rightarrow> nat list \<Rightarrow> 'a request_outcome" where
  "request_loop get max_retries attempt sl =
     (if attempt < max_retries then
        (case get attempt of
           Response status body \<Rightarrow>
             (if status = 200 then
                (case body of
                   Some d \<Rightarrow> \<lparr>returned = Some d, slept = sl, requests_made = Suc attempt\<rparr>
                 | None \<Rightarrow>
                     request_loop get max_retries (Suc attempt)
                       (if attempt < max_retries - 1 then sl @ [2] else sl))
              else if status = 429 then
                request_loop get max_retries (Suc attempt) (sl @ [(attempt + 1) * 3])
              else \<lparr>returned = None, slept = sl, requests_made = Suc attempt\<rparr>)
         | Raises \<Rightarrow>
             request_loop get max_retries (Suc attempt)
               (if attempt < max_retries - 1 then sl @ [2] else sl))
      else \<lparr>returned = None, slept = sl, requests_made = attempt\<rparr>)"
  by pat_completeness auto
termination
  by (relation "measure (\<lambda>(get, max_retries, attempt, sl). max_retries - attempt)") auto

declare request_loop.simps [simp del]

text \<open>\<open>_request_with_retry(url, params)\<close> with the default \<open>max_retries = 3\<close>.\<close>

definition request_with_retry :: "(nat \<Rightarrow> 'a http_result) \<Rightarrow> 'a request_outcome" where
  "request_with_retry get = request_loop get 3 0 []"

section \<open>StateManager\<close>

text \<open>
  The state document has the two dictionaries \<open>processed_urls\<close> and \<open>file_hashes\<close>. An entry
  of \<open>processed_urls\<close> holds the timestamp and the \<open>info\<close> dictionary, a list of key and value
  pairs. The manager holds the document in memory (\<open>state\<close>) and \<open>saved\<close> is the content of
  the state file, which \<open>save_state\<close> overwrites with the whole document.
\<close>

record entry =
  processed_at :: string
  info :: "(string \<times> string) list"

record pstate =
  processed_urls :: "string \<rightharpoonup> entry"
  file_hashes :: "string \<rightharpoonup> string"

record state_manager =
  state :: pstate
  saved :: pstate

definition save_state :: "state_manager \<Rightarrow> state_manager" where
  "save_state sm = sm\<lparr>saved := state sm\<rparr>"

definition is_url_processed :: "state_manager \<Rightarrow> string \<Rightarrow> bool" where
  "is_url_processed sm url = (processed_urls (state sm) url \<noteq> None)"

text \<open>\<open>now\<close> is the value of \<open>datetime.now().isoformat()\<close> at the call.\<close>

definition mark_url_processed ::
  "state_manager \<Rightarrow> string \<Rightarrow> (string \<times> string) list \<Rightarrow> string \<Rightarrow> state_manager" where
  "mark_url_processed sm url paper_info now =
     save_state (sm\<lparr>state := (state sm)\<lparr>processed_urls :=
        (processed_urls (state sm))(url \<mapsto> \<lparr>processed_at = now, info = paper_info\<rparr>)\<rparr>\<rparr>)"

definition empty_state :: pstate where
  "empty_state = \<lparr>processed_urls = Map.empty, file_hashes = Map.empty\<rparr>"

section \<open>Regular expressions of the \<open>re\<close> module\<close>

text \<open>
  The patterns of \<open>URLParser\<close> are sequences of these items: \<open>One p\<close> is one character of
  the class \<open>p\<close> (a literal or a set); \<open>Rep p lo hi\<close> is the greedy repetition \<open>{lo,hi}\<close> of
  a class, \<open>hi = None\<close> for no upper bound, so \<open>+\<close> is \<open>Rep p 1 None\<close> and \<open>?\<close> is
  \<open>Rep p 0 (Some 1)\<close>; \<open>Opt g\<close> is the greedy optional group \<open>(?:g)?\<close>; \<open>Open\<close> is the
  opening parenthesis of capturing group 1, which in every pattern here closes at the end
  of the pattern.
\<close>

datatype item = One "char \<Rightarrow> bool" | Rep "char \<Rightarrow> bool" nat "nat option" | Opt "item list" | Open

fun first_some :: "'a option list \<Rightarrow> 'a option" where
  "first_some [] = None"
| "first_some (None # xs) = first_some xs"
| "first_some (Some x # xs) = Some x"

text \<open>
  The backtracking matcher, anchored at the start of \<open>s\<close>: the first match in the order in
  which \<open>re\<close> tries them (a repetition tries the longest run first, then shorter ones; an
  optional group is tried before it is skipped). \<open>mk\<close> is the input as it was where group
  1 opened. The result is that input and the input left after the match.
\<close>

fun match_here :: "item list \<Rightarrow> string \<Rightarrow> string \<Rightarrow> (string \<times> string) option" where
  "match_here [] mk s = Some (mk, s)"
| "match_here (Open # rest) mk s = match_here rest s s"
| "match_here (One p # rest) mk [] = None"
| "match_here (One p # rest) mk (x # s) = (if p x then match_here rest mk s else None)"
| "match_here (Rep p lo hi # rest) mk s =
     (let n = length (takeWhile p s);
          m = (case hi of None \<Rightarrow> n | Some h \<Rightarrow> min n h)
      in if m < lo then None
         else first_some (map (\<lambda>k. match_here rest mk (drop k s)) (rev [lo..<Suc m])))"
| "match_here (Opt g # rest) mk s =
     (case match_here (g @ rest) mk s of
        Some r \<Rightarrow> Some r
      | None \<Rightarrow> match_here rest mk s)"

text \<open>A match at the start of \<open>s\<close>: the matched text (group 0) and the text of group 1.\<close>

definition match_at :: "item list \<Rightarrow> string \<Rightarrow> (string \<times> string) option" where
  "match_at pat s =
     (case match_here pat s s of
        None \<Rightarrow> None
      | Some (mk, r) \<Rightarrow> Some (take (length s - length r) s, take (length mk - length r) mk))"

text \<open>\<open>re.search\<close>: the match at the leftmost position that has one.\<close>

fun re_search :: "item list \<Rightarrow> string \<Rightarrow> (string \<times> string) option" where
  "re_search pat [] = match_at pat []"
| "re_search pat (c # s) =
     (case match_at pat (c # s) of Some r \<Rightarrow> Some r | None \<Rightarrow> re_search pat s)"

text \<open>A pattern \<open>A|B\<close> at the start of \<open>s\<close>: the alternatives in order; what is left of \<open>s\<close>.\<close>

fun match_alts :: "item list list \<Rightarrow> string \<Rightarrow> string option" where
  "match_alts [] s = None"
| "match_alts (alt # alts) s =
     (case match_here alt s s of Some (mk, r) \<Rightarrow> Some r | None \<Rightarrow> match_alts alts s)"

text \<open>
  The matches of \<open>re.finditer\<close> with their start positions, \<open>pos\<close> being the position of \<open>s\<close>
  in the text: after a match the scan goes on where the match ended, after an empty match
  and where nothing matches it moves on by one character.
\<close>

function re_finditer :: "item list list \<Rightarrow> nat \<Rightarrow> string \<Rightarrow> (nat \<times> string) list" where
  "re_finditer alts pos s =
     (case match_alts alts s of
        None \<Rightarrow> (case s of [] \<Rightarrow> [] | c # s' \<Rightarrow> re_finditer alts (Suc pos) s')
      | Some r \<Rightarrow>
          if length r < length s
          then (pos, take (length s - length r) s)
                 # re_finditer alts (pos + (length s - length r)) r
          else (pos, []) # (case s of [] \<Rightarrow> [] | c # s' \<Rightarrow> re_finditer alts (Suc pos) s'))"
  by pat_completeness auto
termination
  by (relation "measure (\<lambda>(alts, pos, s). length s)") auto

declare re_finditer.simps [simp del]

text \<open>\<open>re.findall\<close> for a pattern without groups: the matched texts.\<close>

definition re_findall :: "item list list \<Rightarrow> string \<Rightarrow> string list" where
  "re_findall alts s = map snd (re_finditer alts 0 s)"

text \<open>
  Lower case of a code point below 256, which is how \<open>re.IGNORECASE\<close> compares the
  characters of the input with the ASCII letters of these patterns.
\<close>

definition py_lower :: "char \<Rightarrow> char" where
  "py_lower c =
     (let n = (of_char c :: nat)
      in if (65 \<le> n \<and> n \<le> 90) \<or> (192 \<le> n \<and> n \<le> 222 \<and> n \<noteq> 215)
         then char_of (n + 32) else c)"

definition lit :: "char \<Rightarrow> item" where
  "lit c = One (\<lambda>x. x = c)"

definition lit_i :: "char \<Rightarrow> item" where
  "lit_i c = One (\<lambda>x. py_lower x = py_lower c)"

text \<open>The class \<open>\d\<close>, and the class \<open>[a-z-]\<close> under \<open>re.IGNORECASE\<close>.\<close>

definition az_dash_i :: "char \<Rightarrow> bool" where
  "az_dash_i c =
     (let n = (of_char (py_lower c) :: nat) in (97 \<le> n \<and> n \<le> 122) \<or> c = CHR ''-'')"

section \<open>URLParser\<close>

text \<open>
  \<open>ARXIV_PATTERNS\<close>: \<open>arxiv\.org/abs/(\d{4}\.\d{4,5}(?:v\d+)?)\<close> and
  \<open>arxiv\.org/abs/([a-z-]+/\d{7})\<close>, each also with \<open>pdf\<close> for \<open>abs\<close>, all searched with
  \<open>re.IGNORECASE\<close>.
\<close>

definition arxiv_new :: "string \<Rightarrow> item list" where
  "arxiv_new path = map lit_i (''arxiv.org/'' @ path @ ''/'')
     @ [Open, Rep re_digit 4 (Some 4), lit_i (CHR ''.''), Rep re_digit 4 (Some 5),
        Opt [lit_i (CHR ''v''), Rep re_digit 1 None]]"

definition arxiv_old :: "string \<Rightarrow> item list" where
  "arxiv_old path = map lit_i (''arxiv.org/'' @ path @ ''/'')
     @ [Open, Rep az_dash_i 1 None, lit_i (CHR ''/''), Rep re_digit 7 (Some 7)]"

definition ARXIV_PATTERNS :: "item list list" where
  "ARXIV_PATTERNS = [arxiv_new ''abs'', arxiv_new ''pdf'', arxiv_old ''abs'', arxiv_old ''pdf'']"

text \<open>
  The loop of \<open>extract_arxiv_id\<close> over the patterns: the first pattern found in the URL
  gives group 1, cut at its first \<open>v\<close> when it has one.
\<close>

fun extract_arxiv_id_loop :: "item list list \<Rightarrow> string \<Rightarrow> string option" where
  "extract_arxiv_id_loop [] url = None"
| "extract_arxiv_id_loop (pattern # patterns) url =
     (case re_search pattern url of
        Some (whole, aid) \<Rightarrow>
          Some (if CHR ''v'' \<in> set aid then hd (py_split (CHR ''v'') aid) else aid)
      | None \<Rightarrow> extract_arxiv_id_loop patterns url)"

definition extract_arxiv_id :: "string \<Rightarrow> string option" where
  "extract_arxiv_id url = extract_arxiv_id_loop ARXIV_PATTERNS url"

text \<open>
  \<open>DOI_PATTERNS\<close>: \<open>doi\.org/(10\.\d{4,}/[^\s\)]+)\<close> and \<open>doi:\s*(10\.\d{4,}/[^\s\)]+)\<close>, with
  \<open>re.IGNORECASE\<close>; group 1 loses its trailing periods.
\<close>

definition doi_char :: "char \<Rightarrow> bool" where
  "doi_char c = (\<not> py_isspace c \<and> c \<noteq> CHR '')'')"

definition doi_body :: "item list" where
  "doi_body = [Open, lit_i (CHR ''1''), lit_i (CHR ''0''), lit_i (CHR ''.''),
               Rep re_digit 4 None, lit_i (CHR ''/''), Rep doi_char 1 None]"

definition DOI_PATTERNS :: "item list list" where
  "DOI_PATTERNS = [map lit_i ''doi.org/'' @ doi_body,
                   map lit_i ''doi:'' @ [Rep py_isspace 0 None] @ doi_body]"

fun extract_doi_loop :: "item list list \<Rightarrow> string \<Rightarrow> string option" where
  "extract_doi_loop [] url = None"
| "extract_doi_loop (pattern # patterns) url =
     (case re_search pattern url of
        Some (whole, g) \<Rightarrow> Some (py_rstrip (\<lambda>c. c = CHR ''.'') g)
      | None \<Rightarrow> extract_doi_loop patterns url)"

definition extract_doi :: "string \<Rightarrow> string option" where
  "extract_doi url = extract_doi_loop DOI_PATTERNS url"

text \<open>
  \<open>url_pattern\<close> of \<open>find_urls_in_text\<close>, the two alternatives
  \<open>https?://[^\s\)\]<>\"\']+\<close> and \<open>doi:\s*10\.\d{4,}/[^\s\)\]<>\"\'"]+\<close>, without flags.
\<close>

definition url_char :: "char \<Rightarrow> bool" where
  "url_char c =
     (\<not> py_isspace c
      \<and> c \<notin> set [CHR '')'', CHR '']'', CHR ''<'', CHR ''>'', CHR 0x22, CHR 0x27])"

definition http_alt :: "item list" where
  "http_alt = map lit ''http'' @ [Rep (\<lambda>x. x = CHR ''s'') 0 (Some 1)] @ map lit ''://''
     @ [Rep url_char 1 None]"

definition doi_alt :: "item list" where
  "doi_alt = map lit ''doi:'' @ [Rep py_isspace 0 None] @ map lit ''10.''
     @ [Rep re_digit 4 None, lit (CHR ''/''), Rep url_char 1 None]"

definition url_pattern :: "item list list" where
  "url_pattern = [http_alt, doi_alt]"

definition trailing_punct :: "char \<Rightarrow> bool" where
  "trailing_punct c = (c \<in> set ''.,;:'')"

definition find_urls_in_text :: "string \<Rightarrow> string list" where
  "find_urls_in_text text = map (py_rstrip trailing_punct) (re_findall url_pattern text)"

text \<open>
  The URLs that \<open>find_urls_in_text\<close> returns with the positions of their matches, and what
  it is for such a list to run through a text from left to right without overlap.
\<close>

definition url_occurrences :: "string \<Rightarrow> (nat \<times> string) list" where
  "url_occurrences text =
     map (\<lambda>(pos, m). (pos, py_rstrip trailing_punct m)) (re_finditer url_pattern 0 text)"

fun in_order_from :: "nat \<Rightarrow> (nat \<times> string) list \<Rightarrow> bool" where
  "in_order_from lo [] = True"
| "in_order_from lo ((pos, m) # rest) = (lo \<le> pos \<and> in_order_from (pos + length m) rest)"

section \<open>MarkdownProcessor: rewriting the note\<close>

definition NL :: char where
  "NL = CHR 0x0A"

definition CR :: char where
  "CR = CHR 0x0D"

text \<open>
  The note is opened in text mode without a \<open>newline\<close> argument. Reading then gives the
  text with every line ending \<open>CR LF\<close> and every lone \<open>CR\<close> replaced by \<open>LF\<close>, and
  writing replaces every \<open>LF\<close> of the text by \<open>os.linesep\<close>, which is a parameter here. A
  file is the list of its characters.
\<close>

fun read_text :: "string \<Rightarrow> string" where
  "read_text [] = []"
| "read_text [c] = (if c = CR then [NL] else [c])"
| "read_text (c # d # s) =
     (if c = CR then (if d = NL then NL # read_text s else NL # read_text (d # s))
      else c # read_text (d # s))"

definition write_text :: "string \<Rightarrow> string \<Rightarrow> string" where
  "write_text linesep s = concat (map (\<lambda>c. if c = NL then linesep else [c]) s)"

text \<open>
  The inner loop of \<open>update_file_with_formatted_refs\<close>: every line is copied, and a line
  that is the URL once stripped is followed by an empty line and the formatted citation.
\<close>

fun insert_after :: "string \<Rightarrow> string \<Rightarrow> string list \<Rightarrow> string list" where
  "insert_after url formatted [] = []"
| "insert_after url formatted (line # lines) =
     (if py_strip line = url
      then line # [] # formatted # insert_after url formatted lines
      else line # insert_after url formatted lines)"

text \<open>
  The outer loop over the results, on the content that was read. Each triple splits the
  current content again.
\<close>

fun append_formatted_refs ::
  "string \<Rightarrow> (string \<times> paper_info \<times> string option) list \<Rightarrow> string" where
  "append_formatted_refs content [] = content"
| "append_formatted_refs content ((url, p, pdf_path) # results) =
     append_formatted_refs
       (py_join [NL] (insert_after url (to_markdown p pdf_path) (py_split NL content))) results"

text \<open>
  \<open>update_file_with_formatted_refs\<close>: the file is read, the loops run on its text, and the
  text is written back. The result is the file afterwards.
\<close>

definition update_file_with_formatted_refs ::
  "string \<Rightarrow> string \<Rightarrow> (string \<times> paper_info \<times> string option) list \<Rightarrow> string" where
  "update_file_with_formatted_refs linesep file results =
     write_text linesep (append_formatted_refs (read_text file) results)"

text \<open>The lines of a file, as the program sees them when it reads the file.\<close>

definition file_lines :: "string \<Rightarrow> string list" where
  "file_lines file = py_split NL (read_text file)"

text \<open>The URL and the formatted citation of every triple, in the order of the triples.\<close>

definition formatted_refs ::
  "(string \<times> paper_info \<times> string option) list \<Rightarrow> (string \<times> string) list" where
  "formatted_refs results = map (\<lambda>(url, p, pdf_path). (url, to_markdown p pdf_path)) results"

text \<open>
  The same loops on the list of lines, the content being split once at the start, and
  what the note's contract says a line becomes: the line alone, or the line, an empty line
  and the citation of the triple whose URL the stripped line is.
\<close>

fun rewrite_lines :: "(string \<times> string) list \<Rightarrow> string list \<Rightarrow> string list" where
  "rewrite_lines [] ls = ls"
| "rewrite_lines ((url, f) # refs) ls = rewrite_lines refs (insert_after url f ls)"

definition line_with_ref :: "(string \<times> string) list \<Rightarrow> string \<Rightarrow> string list" where
  "line_with_ref refs line =
     (case map_of refs (py_strip line) of None \<Rightarrow> [line] | Some f \<Rightarrow> [line, [], f])"

text \<open>
  Triples that do not meet each other's insertions: the URL of a triple is not the URL of
  an earlier triple, not the empty string when there is an earlier triple, and not the
  stripped citation of an earlier triple.
\<close>

fun refs_apart :: "(string \<times> string) list \<Rightarrow> bool" where
  "refs_apart [] = True"
| "refs_apart ((url, f) # refs) =
     (url \<notin> set (map fst refs) \<and> [] \<notin> set (map fst refs)
      \<and> py_strip f \<notin> set (map fst refs) \<and> refs_apart refs)"

section \<open>Exceptions\<close>

text \<open>
  What a call raises: \<open>Error\<close> is an exception of a class under \<open>Exception\<close>, with its
  message; \<open>Interrupt\<close> is one of the others (\<open>KeyboardInterrupt\<close>, \<open>SystemExit\<close>), which
  \<open>except Exception\<close> does not catch. A call that may raise returns \<open>Inl\<close> of what it
  raised or \<open>Inr\<close> of its value.
\<close>

datatype py_error = Error string | Interrupt

section \<open>The world outside the program\<close>

text \<open>
  The services, the file system and the clock are parameters. \<open>'n\<close> is the state of that
  world, which every call may change. \<open>ss_full_paper_info\<close>, \<open>arxiv_paper_info\<close> and
  \<open>ss_citations\<close> are \<open>SemanticScholarAPI.get_full_paper_info\<close>, \<open>ArxivAPI.get_paper_info\<close>
  and \<open>SemanticScholarAPI.get_citations\<close> for an arXiv identifier; \<open>http_get\<close> is the
  \<open>requests.get\<close> of \<open>PDFDownloader.download\<close> and gives the status code of the response;
  \<open>save_body\<close> is the rest of its \<open>try\<close> block, which makes the directory and writes the
  chunks of the response to the file; \<open>datetime_now\<close> is \<open>datetime.now().isoformat()\<close>; the
  last three are the functions of \<open>os.path\<close>.
\<close>

record 'n env =
  ss_full_paper_info :: "string \<Rightarrow> 'n \<Rightarrow> (py_error + paper_info option) \<times> 'n"
  arxiv_paper_info :: "string \<Rightarrow> 'n \<Rightarrow> (py_error + paper_info option) \<times> 'n"
  ss_citations :: "string \<Rightarrow> 'n \<Rightarrow> (py_error + int option) \<times> 'n"
  http_get :: "string option \<Rightarrow> 'n \<Rightarrow> (py_error + nat) \<times> 'n"
  save_body :: "string \<Rightarrow> 'n \<Rightarrow> (py_error + unit) \<times> 'n"
  datetime_now :: "'n \<Rightarrow> string \<times> 'n"
  os_path_join :: "string \<Rightarrow> string \<Rightarrow> string"
  os_path_dirname :: "string \<Rightarrow> string"
  os_path_relpath :: "string \<Rightarrow> string \<Rightarrow> py_error + string"

text \<open>
  The program's view of the world: the state manager, the world outside, and the seconds
  of every \<open>time.sleep\<close> of \<open>process_file\<close> and \<open>_process_arxiv\<close>, in order.
\<close>

record 'n world =
  manager :: state_manager
  net :: 'n
  paused :: "nat list"

section \<open>PDFDownloader\<close>

text \<open>
  The handler \<open>except Exception\<close> of \<open>download\<close>: an \<open>Error\<close> becomes the value \<open>False\<close>,
  anything else goes on to the caller.
\<close>

definition download_handler :: "py_error \<Rightarrow> py_error + bool" where
  "download_handler e = (case e of Error msg \<Rightarrow> Inr False | Interrupt \<Rightarrow> Inl Interrupt)"

text \<open>
  \<open>download(url, save_path)\<close>. \<open>raise_for_status\<close> raises for a status code from 400 to 599,
  inside the \<open>try\<close> block.
\<close>

definition download ::
  "'n env \<Rightarrow> string option \<Rightarrow> string \<Rightarrow> 'n \<Rightarrow> (py_error + bool) \<times> 'n" where
  "download env url save_path n =
     (case http_get env url n of
        (Inl e, n1) \<Rightarrow> (download_handler e, n1)
      | (Inr status, n1) \<Rightarrow>
          if 400 \<le> status \<and> status < 600 then (Inr False, n1)
          else (case save_body env save_path n1 of
                  (Inl e, n2) \<Rightarrow> (download_handler e, n2)
                | (Inr u, n2) \<Rightarrow> (Inr True, n2)))"

text \<open>\<open>s.split()\<close>: the words of \<open>s\<close> between runs of whitespace; \<open>w\<close> is the word so far.\<close>

fun py_words_from :: "string \<Rightarrow> string \<Rightarrow> string list" where
  "py_words_from w [] = (if w = [] then [] else [w])"
| "py_words_from w (c # s) =
     (if py_isspace c then (if w = [] then py_words_from [] s else w # py_words_from [] s)
      else py_words_from (w @ [c]) s)"

definition py_words :: "string \<Rightarrow> string list" where
  "py_words s = py_words_from [] s"

text \<open>
  \<open>generate_filename\<close>: the title without the characters \<open><>:"/\|?*\<close>, cut to 80
  characters; the last word of the first author, where \<open>[-1]\<close> raises \<open>IndexError\<close> when
  that author has no word.
\<close>

definition unsafe_char :: "char \<Rightarrow> bool" where
  "unsafe_char c = (c \<in> set [CHR ''<'', CHR ''>'', CHR '':'', CHR 0x22, CHR ''/'', CHR 0x5C,
                             CHR ''|'', CHR ''?'', CHR ''*''])"

definition generate_filename :: "paper_info \<Rightarrow> py_error + string" where
  "generate_filename p =
     (let short_title = take 80 (filter (\<lambda>c. \<not> unsafe_char c) (title p))
      in case (case authors p of
                 [] \<Rightarrow> Inr ''Unknown''
               | a # others \<Rightarrow>
                   (if py_words a = [] then Inl (Error ''IndexError'')
                    else Inr (last (py_words a)))) of
           Inl e \<Rightarrow> Inl e
         | Inr first_author \<Rightarrow>
             Inr (first_author @ ''_'' @ year p @ ''_'' @ short_title @ ''.pdf''))"

section \<open>MarkdownProcessor: processing the note\<close>

text \<open>
  \<open>_process_arxiv\<close>: Semantic Scholar first, the arXiv service when that gives nothing, and
  the citation count by a call of its own, after a sleep of one second, when the record
  has none. An exception of one of the calls goes on to the caller.
\<close>

definition process_arxiv ::
  "'n env \<Rightarrow> string \<Rightarrow> 'n world \<Rightarrow> (py_error + paper_info option) \<times> 'n world" where
  "process_arxiv env aid w =
     (case ss_full_paper_info env aid (net w) of
        (Inl e, n1) \<Rightarrow> (Inl e, w\<lparr>net := n1\<rparr>)
      | (Inr first, n1) \<Rightarrow>
          (case (if first = None then arxiv_paper_info env aid n1 else (Inr first, n1)) of
             (Inl e, n2) \<Rightarrow> (Inl e, w\<lparr>net := n2\<rparr>)
           | (Inr None, n2) \<Rightarrow> (Inr None, w\<lparr>net := n2\<rparr>)
           | (Inr (Some p), n2) \<Rightarrow>
               if citations p = None then
                 (case ss_citations env aid n2 of
                    (Inl e, n3) \<Rightarrow> (Inl e, w\<lparr>net := n3, paused := paused w @ [1]\<rparr>)
                  | (Inr count, n3) \<Rightarrow>
                      (Inr (Some (if count \<noteq> None then p\<lparr>citations := count\<rparr> else p)),
                       w\<lparr>net := n3, paused := paused w @ [1]\<rparr>))
               else (Inr (Some p), w\<lparr>net := n2\<rparr>)))"

text \<open>
  The body of the loop of \<open>process_file\<close> for one URL, with the results so far; it gives
  the results after it, or what was raised. What the program prints is left out.
\<close>

definition process_url ::
  "'n env \<Rightarrow> string \<Rightarrow> string \<Rightarrow> string \<Rightarrow> 'n world
     \<Rightarrow> (string \<times> paper_info \<times> string option) list
     \<Rightarrow> (py_error + (string \<times> paper_info \<times> string option) list) \<times> 'n world" where
  "process_url env pdf_dir filepath url w results =
     (if is_url_processed (manager w) url then (Inr results, w)
      else if truthy (extract_arxiv_id url) then
        (case process_arxiv env (the (extract_arxiv_id url)) w of
           (Inl e, w1) \<Rightarrow> (Inl e, w1)
         | (Inr None, w1) \<Rightarrow> (Inr results, w1)
         | (Inr (Some p), w1) \<Rightarrow>
             (case generate_filename p of
                Inl e \<Rightarrow> (Inl e, w1)
              | Inr pdf_filename \<Rightarrow>
                  (let pdf_path = os_path_join env pdf_dir pdf_filename
                   in case download env (pdf_url p) pdf_path (net w1) of
                        (Inl e, n2) \<Rightarrow> (Inl e, w1\<lparr>net := n2\<rparr>)
                      | (Inr ok, n2) \<Rightarrow>
                          (case (if ok
                                 then map_sum id Some
                                        (os_path_relpath env pdf_path (os_path_dirname env filepath))
                                 else Inr None) of
                             Inl e \<Rightarrow> (Inl e, w1\<lparr>net := n2\<rparr>)
                           | Inr relative_pdf_path \<Rightarrow>
                               (case datetime_now env n2 of
                                  (stamp, n3) \<Rightarrow>
                                    (Inr (results @ [(url, p, relative_pdf_path)]),
                                     w1\<lparr>manager := mark_url_processed (manager w1) url
                                          [(''title'', title p),
                                           (''arxiv_id'', the (extract_arxiv_id url))] stamp,
                                        net := n3,
                                        paused := paused w1 @ [2]\<rparr>))))))
      else if truthy (extract_doi url) then
        (case datetime_now env (net w) of
           (stamp, n1) \<Rightarrow>
             (Inr results,
              w\<lparr>manager := mark_url_processed (manager w) url
                   [(''doi'', the (extract_doi url))] stamp,
                net := n1\<rparr>))
      else (Inr results, w))"

text \<open>The loop over the URLs: an exception ends it.\<close>

fun process_urls ::
  "'n env \<Rightarrow> string \<Rightarrow> string \<Rightarrow> string list \<Rightarrow> 'n world
     \<Rightarrow> (string \<times> paper_info \<times> string option) list
     \<Rightarrow> (py_error + (string \<times> paper_info \<times> string option) list) \<times> 'n world" where
  "process_urls env pdf_dir filepath [] w results = (Inr results, w)"
| "process_urls env pdf_dir filepath (url # urls) w results =
     (case process_url env pdf_dir filepath url w results of
        (Inl e, w1) \<Rightarrow> (Inl e, w1)
      | (Inr results1, w1) \<Rightarrow> process_urls env pdf_dir filepath urls w1 results1)"

text \<open>
  \<open>process_file(filepath)\<close>, \<open>file\<close> being the content of the file at \<open>filepath\<close>: the URLs
  of the text that is read, from an empty list of results.
\<close>

definition process_file ::
  "'n env \<Rightarrow> string \<Rightarrow> string \<Rightarrow> string \<Rightarrow> 'n world
     \<Rightarrow> (py_error + (string \<times> paper_info \<times> string option) list) \<times> 'n world" where
  "process_file env pdf_dir filepath file w =
     process_urls env pdf_dir filepath (find_urls_in_text (read_text file)) w []"

section \<open>Properties of the citation format\<close>

lemma str_nat_0: "str_nat 0 = ''0''"
  by (simp add: str_nat.simps digit_char_def)

lemma str_int_0: "str_int 0 = ''0''"
  by (simp add: str_int_def str_nat_0)

text \<open>
  Claim C7. The citation string is the title, authors, venue and year part, then the
  fragments \<open>(PDF)\<close>, \<open>(arXiv)\<close>, \<open>(DOI)\<close> in this order, each preceded by one space and
  present exactly when its datum is there (a datum that is the empty string counts as
  not there, as \<open>None\<close> does), then \<open>(Citations: N)\<close> when the count is present, which
  is \<open>(Citations: 0)\<close> for the count 0, and \<open>(Citations: N/A)\<close> when it is absent.
\<close>

theorem to_markdown_layout:
  "to_markdown p pdf =
     ''**'' @ title p @ ''**. '' @ format_authors p 3 @ ''. '' @ venue p @ '', '' @ year p
     @ (if truthy pdf then '' ([PDF]('' @ the pdf @ ''))'' else [])
     @ (if truthy (arxiv_id p)
        then '' ([arXiv](https://arxiv.org/abs/'' @ the (arxiv_id p) @ ''))'' else [])
     @ (if truthy (doi p) then '' ([DOI](https://doi.org/'' @ the (doi p) @ ''))'' else [])
     @ (case citations p of
          Some n \<Rightarrow> '' (Citations: '' @ str_int n @ '')''
        | None \<Rightarrow> '' (Citations: N/A)'')
   \<and> str_int 0 = ''0''"
  by (simp add: to_markdown_def Let_def str_int_0 split: option.splits)

theorem to_markdown_layout_witness:
  "to_markdown \<lparr>title = ''Foo'', authors = [''Jane Doe''], venue = ''arXiv'', year = ''2023'',
                 arxiv_id = Some ''2301.00001'', doi = None,
                 pdf_url = Some ''https://arxiv.org/pdf/2301.00001.pdf'',
                 citations = Some 0\<rparr> (Some ''pdfs/Doe_2023_Foo.pdf'')
   = ''**Foo**. Jane Doe. arXiv, 2023 ([PDF](pdfs/Doe_2023_Foo.pdf)) ([arXiv](https://arxiv.org/abs/2301.00001)) (Citations: 0)''"
  using to_markdown_layout
    [of "\<lparr>title = ''Foo'', authors = [''Jane Doe''], venue = ''arXiv'', year = ''2023'',
                 arxiv_id = Some ''2301.00001'', doi = None,
                 pdf_url = Some ''https://arxiv.org/pdf/2301.00001.pdf'',
                 citations = Some 0\<rparr>" "Some ''pdfs/Doe_2023_Foo.pdf''"]
  by (simp add: format_authors_def truthy_def)

section \<open>Properties of the rewrite\<close>

lemma py_split_nonempty: "py_split c s \<noteq> []"
  by (induction s) (auto split: list.splits)

lemma py_split_no_sep: "l \<in> set (py_split c s) \<Longrightarrow> c \<notin> set l"
proof (induction s arbitrary: l)
  case Nil then show ?case by simp
next
  case (Cons x xs)
  obtain r rs where sp: "py_split c xs = r # rs"
    using py_split_nonempty [of c xs] by (cases "py_split c xs") auto
  show ?case
  proof (cases "x = c")
    case True with Cons show ?thesis by auto
  next
    case False
    with Cons.prems sp have "l = x # r \<or> l \<in> set rs" by simp
    then show ?thesis
    proof
      assume "l = x # r"
      moreover have "c \<notin> set r" using Cons.IH [of r] sp by simp
      ultimately show ?thesis using False by auto
    next
      assume "l \<in> set rs"
      then show ?thesis using Cons.IH [of l] sp by simp
    qed
  qed
qed

lemma py_split_plain: "c \<notin> set x \<Longrightarrow> py_split c x = [x]"
  by (induction x) (auto split: list.splits)

lemma py_split_append: "c \<notin> set x \<Longrightarrow> py_split c (x @ c # rest) = x # py_split c rest"
  by (induction x) (auto split: list.splits)

lemma py_join_split: "py_join [c] (py_split c s) = s"
proof (induction s)
  case Nil then show ?case by simp
next
  case (Cons x xs)
  obtain l ls where sp: "py_split c xs = l # ls"
    using py_split_nonempty [of c xs] by (cases "py_split c xs") auto
  show ?case
  proof (cases "x = c")
    case True
    with Cons sp show ?thesis by simp
  next
    case False
    with Cons sp show ?thesis by (cases ls) auto
  qed
qed

lemma py_split_join:
  "ls \<noteq> [] \<Longrightarrow> \<forall>l\<in>set ls. c \<notin> set l \<Longrightarrow> py_split c (py_join [c] ls) = ls"
proof (induction "[c]" ls rule: py_join.induct)
  case 1 then show ?case by simp
next
  case (2 x) then show ?case by (simp add: py_split_plain)
next
  case (3 x y ys)
  then show ?case by (simp add: py_split_append)
qed

lemma py_strip_Nil: "py_strip [] = []"
  by (simp add: py_strip_def py_rstrip_def)

lemma insert_after_nonempty: "ls \<noteq> [] \<Longrightarrow> insert_after url f ls \<noteq> []"
  by (cases ls) auto

lemma insert_after_no_sep:
  "c \<notin> set f \<Longrightarrow> \<forall>l\<in>set ls. c \<notin> set l \<Longrightarrow> \<forall>l\<in>set (insert_after url f ls). c \<notin> set l"
  by (induction ls) auto

lemma append_formatted_refs_lines:
  "\<forall>(url, f)\<in>set (formatted_refs results). NL \<notin> set f \<Longrightarrow>
   ls \<noteq> [] \<Longrightarrow> \<forall>l\<in>set ls. NL \<notin> set l \<Longrightarrow>
   py_split NL (append_formatted_refs (py_join [NL] ls) results)
     = rewrite_lines (formatted_refs results) ls"
proof (induction results arbitrary: ls)
  case Nil
  then show ?case by (simp add: formatted_refs_def py_split_join)
next
  case (Cons t results)
  obtain url p pdf where t: "t = (url, p, pdf)" by (cases t) auto
  let ?f = "to_markdown p pdf"
  let ?ls = "insert_after url ?f ls"
  from Cons.prems(1) t have f: "NL \<notin> set ?f"
    and rest: "\<forall>(url, f)\<in>set (formatted_refs results). NL \<notin> set f"
    by (auto simp: formatted_refs_def)
  have ne: "?ls \<noteq> []" using Cons.prems(2) by (rule insert_after_nonempty)
  have ns: "\<forall>l\<in>set ?ls. NL \<notin> set l" using f Cons.prems(3) by (rule insert_after_no_sep)
  have "py_split NL (py_join [NL] ls) = ls"
    using Cons.prems(2,3) by (rule py_split_join)
  then show ?case
    using Cons.IH [OF rest ne ns] t by (simp add: formatted_refs_def)
qed

lemma insert_after_line_with_ref:
  assumes "url \<notin> fst ` set refs" "[] \<notin> fst ` set refs" "py_strip f \<notin> fst ` set refs"
  shows "concat (map (line_with_ref refs) (insert_after url f ls))
           = concat (map (line_with_ref ((url, f) # refs)) ls)"
proof (induction ls)
  case Nil then show ?case by simp
next
  case (Cons l ls)
  have none: "map_of refs u = None" if "u \<notin> fst ` set refs" for u
    using that by (simp add: map_of_eq_None_iff)
  show ?case
  proof (cases "py_strip l = url")
    case True
    then show ?thesis
      using Cons assms by (simp add: line_with_ref_def none py_strip_Nil)
  next
    case False
    then show ?thesis
      using Cons by (auto simp: line_with_ref_def)
  qed
qed

lemma rewrite_lines_line_with_ref:
  "refs_apart refs \<Longrightarrow> rewrite_lines refs ls = concat (map (line_with_ref refs) ls)"
proof (induction refs arbitrary: ls)
  case Nil
  then show ?case by (simp add: line_with_ref_def)
next
  case (Cons r refs)
  obtain url f where r: "r = (url, f)" by (cases r) auto
  from Cons.prems r have u: "url \<notin> fst ` set refs"
    and e: "[] \<notin> fst ` set refs" and s: "py_strip f \<notin> fst ` set refs"
    and a: "refs_apart refs"
    by auto
  have "rewrite_lines (r # refs) ls = concat (map (line_with_ref refs) (insert_after url f ls))"
    using Cons.IH [OF a] r by simp
  also have "\<dots> = concat (map (line_with_ref ((url, f) # refs)) ls)"
    using u e s by (rule insert_after_line_with_ref)
  finally show ?case using r by simp
qed

lemma length_concat_line_with_ref:
  "length (concat (map (line_with_ref refs) ls))
     = length ls + 2 * length (filter (\<lambda>l. py_strip l \<in> fst ` set refs) ls)"
proof (induction ls)
  case Nil then show ?case by simp
next
  case (Cons l ls)
  show ?case
  proof (cases "map_of refs (py_strip l)")
    case None
    then have "py_strip l \<notin> fst ` set refs" by (simp add: map_of_eq_None_iff)
    with None Cons show ?thesis by (simp add: line_with_ref_def)
  next
    case (Some f)
    then have "py_strip l \<in> fst ` set refs" by (metis map_of_eq_None_iff option.distinct(1))
    with Some Cons show ?thesis by (simp add: line_with_ref_def)
  qed
qed

lemma fst_formatted_refs: "map fst (formatted_refs results) = map fst results"
  by (induction results) (auto simp: formatted_refs_def)

lemma NL_neq_CR: "NL \<noteq> CR" "CR \<noteq> NL"
  by (simp_all add: NL_def CR_def)

lemma read_text_other: "c \<noteq> CR \<Longrightarrow> read_text (c # s) = c # read_text s"
  by (cases s) simp_all

lemma read_text_no_CR: "CR \<notin> set (read_text s)"
  by (induction s rule: read_text.induct) (auto simp: NL_neq_CR)

lemma read_text_plain: "CR \<notin> set s \<Longrightarrow> read_text s = s"
  by (induction s) (auto simp: read_text_other)

lemma write_text_LF: "write_text [NL] s = s"
  by (induction s) (auto simp: write_text_def)

lemma write_text_Cons:
  "write_text linesep (c # s) = (if c = NL then linesep else [c]) @ write_text linesep s"
  by (simp add: write_text_def)

lemma read_write_text:
  assumes "linesep = [NL] \<or> linesep = [CR, NL]" and "CR \<notin> set s"
  shows "read_text (write_text linesep s) = s"
  using assms(1)
proof
  assume "linesep = [NL]"
  with assms(2) show ?thesis by (simp add: write_text_LF read_text_plain)
next
  assume crlf: "linesep = [CR, NL]"
  from assms(2) show ?thesis
  proof (induction s)
    case Nil
    then show ?case by (simp add: write_text_def)
  next
    case (Cons c s)
    then show ?case
      by (auto simp: write_text_Cons crlf read_text_other)
  qed
qed

lemma chars_py_split: "l \<in> set (py_split c s) \<Longrightarrow> x \<in> set l \<Longrightarrow> x \<in> set s"
proof (induction s arbitrary: l)
  case Nil
  then show ?case by simp
next
  case (Cons y ys)
  obtain r rs where sp: "py_split c ys = r # rs"
    using py_split_nonempty [of c ys] by (cases "py_split c ys") auto
  show ?case
  proof (cases "y = c")
    case True
    with Cons show ?thesis by auto
  next
    case False
    with Cons.prems sp have "l = y # r \<or> l \<in> set rs" by simp
    then show ?thesis
    proof
      assume "l = y # r"
      with Cons.prems(2) have "x = y \<or> x \<in> set r" by simp
      then show ?thesis using Cons.IH [of r] sp by auto
    next
      assume "l \<in> set rs"
      then show ?thesis using Cons.IH [of l] Cons.prems(2) sp by simp
    qed
  qed
qed

lemma chars_py_join:
  "x \<in> set (py_join sep ls) \<Longrightarrow> x \<in> set sep \<or> (\<exists>l\<in>set ls. x \<in> set l)"
  by (induction sep ls rule: py_join.induct) auto

lemma chars_insert_after:
  "l \<in> set (insert_after url f ls) \<Longrightarrow> l \<in> set ls \<or> l = [] \<or> l = f"
  by (induction ls) (auto split: if_splits)

lemma chars_append_formatted_refs:
  "x \<in> set (append_formatted_refs content results) \<Longrightarrow>
   x \<in> set content \<or> x = NL \<or> (\<exists>(url, f)\<in>set (formatted_refs results). x \<in> set f)"
proof (induction results arbitrary: content)
  case Nil
  then show ?case by simp
next
  case (Cons t results)
  obtain url p pdf where t: "t = (url, p, pdf)" by (cases t) auto
  let ?f = "to_markdown p pdf"
  let ?c = "py_join [NL] (insert_after url ?f (py_split NL content))"
  from Cons.prems t have "x \<in> set (append_formatted_refs ?c results)" by simp
  from Cons.IH [OF this]
  have "x \<in> set ?c \<or> x = NL \<or> (\<exists>(url, f)\<in>set (formatted_refs results). x \<in> set f)" .
  moreover have "x \<in> set content \<or> x = NL \<or> x \<in> set ?f" if "x \<in> set ?c"
  proof -
    from chars_py_join [OF that]
    have "x = NL \<or> (\<exists>l\<in>set (insert_after url ?f (py_split NL content)). x \<in> set l)" by simp
    then show ?thesis
    proof
      assume "x = NL"
      then show ?thesis by simp
    next
      assume "\<exists>l\<in>set (insert_after url ?f (py_split NL content)). x \<in> set l"
      then obtain l where l: "l \<in> set (insert_after url ?f (py_split NL content))" "x \<in> set l"
        by blast
      from chars_insert_after [OF l(1)] l(2) show ?thesis
        by (auto dest: chars_py_split)
    qed
  qed
  ultimately show ?case using t by (auto simp: formatted_refs_def)
qed

lemma append_formatted_refs_expanded:
  assumes "refs_apart (formatted_refs results)"
    and "\<forall>(url, f)\<in>set (formatted_refs results). NL \<notin> set f"
  shows "py_split NL (append_formatted_refs content results)
           = concat (map (line_with_ref (formatted_refs results)) (py_split NL content))"
proof -
  let ?refs = "formatted_refs results"
  let ?ls = "py_split NL content"
  have "py_split NL (append_formatted_refs (py_join [NL] ?ls) results) = rewrite_lines ?refs ?ls"
    using assms(2) py_split_nonempty [of NL content] py_split_no_sep [of _ NL content]
    by (intro append_formatted_refs_lines) auto
  then have "py_split NL (append_formatted_refs content results) = rewrite_lines ?refs ?ls"
    by (simp add: py_join_split)
  also have "\<dots> = concat (map (line_with_ref ?refs) ?ls)"
    using assms(1) by (rule rewrite_lines_line_with_ref)
  finally show ?thesis .
qed

text \<open>
  Claim C3, as stated, fails: a title with a line break in it makes the citation two
  lines, so the note with one matching line grows by three lines, not by two.
\<close>

theorem update_file_line_count_counterexample:
  "length (file_lines (update_file_with_formatted_refs [NL] ''https://arxiv.org/abs/2301.00001''
      [(''https://arxiv.org/abs/2301.00001'',
        \<lparr>title = [CHR ''F'', CHR ''o'', CHR ''o'', NL, CHR ''B'', CHR ''a'', CHR ''r''],
         authors = [''Jane Doe''], venue = ''arXiv'', year = ''2023'',
         arxiv_id = Some ''2301.00001'', doi = None, pdf_url = None, citations = Some 5\<rparr>,
        None)]))
   \<noteq> length (file_lines ''https://arxiv.org/abs/2301.00001'')
       + 2 * length (filter (\<lambda>l. py_strip l = ''https://arxiv.org/abs/2301.00001'')
                       (file_lines ''https://arxiv.org/abs/2301.00001''))"
  by code_simp

text \<open>
  More inputs on which the lines of the result are not the lines of the note with one
  citation after each matching line: a URL that occurs in two triples; a URL that is the
  empty string, which the empty line inserted for an earlier triple matches; a URL that
  is the citation of an earlier triple. And the file is not left as it was, even with no
  triple at all, where its line endings are not \<open>os.linesep\<close>.
\<close>

lemma update_file_same_url_twice:
  "file_lines (update_file_with_formatted_refs [NL] ''doi:10.1000/x''
      [(''doi:10.1000/x'', \<lparr>title = ''A'', authors = [], venue = ''V'', year = ''2020'',
          arxiv_id = None, doi = None, pdf_url = None, citations = None\<rparr>, None),
       (''doi:10.1000/x'', \<lparr>title = ''B'', authors = [], venue = ''V'', year = ''2020'',
          arxiv_id = None, doi = None, pdf_url = None, citations = None\<rparr>, None)])
   = [''doi:10.1000/x'', [], ''**B**. . V, 2020 (Citations: N/A)'',
      [], ''**A**. . V, 2020 (Citations: N/A)'']"
  by code_simp

lemma update_file_empty_url:
  "file_lines (update_file_with_formatted_refs [NL] ''doi:10.1000/x''
      [(''doi:10.1000/x'', \<lparr>title = ''A'', authors = [], venue = ''V'', year = ''2020'',
          arxiv_id = None, doi = None, pdf_url = None, citations = None\<rparr>, None),
       ([], \<lparr>title = ''B'', authors = [], venue = ''V'', year = ''2020'',
          arxiv_id = None, doi = None, pdf_url = None, citations = None\<rparr>, None)])
   = [''doi:10.1000/x'', [], [], ''**B**. . V, 2020 (Citations: N/A)'',
      ''**A**. . V, 2020 (Citations: N/A)'']"
  by code_simp

lemma update_file_citation_as_url:
  "file_lines (update_file_with_formatted_refs [NL] ''doi:10.1000/x''
      [(''doi:10.1000/x'', \<lparr>title = ''A'', authors = [], venue = ''V'', year = ''2020'',
          arxiv_id = None, doi = None, pdf_url = None, citations = None\<rparr>, None),
       (''**A**. . V, 2020 (Citations: N/A)'',
        \<lparr>title = ''B'', authors = [], venue = ''V'', year = ''2020'',
          arxiv_id = None, doi = None, pdf_url = None, citations = None\<rparr>, None)])
   = [''doi:10.1000/x'', [], ''**A**. . V, 2020 (Citations: N/A)'',
      [], ''**B**. . V, 2020 (Citations: N/A)'']"
  by code_simp

lemma update_file_line_endings:
  "update_file_with_formatted_refs [NL] [CHR ''a'', CR, NL, CHR ''b'', CR, CHR ''c''] []
     = [CHR ''a'', NL, CHR ''b'', NL, CHR ''c'']
   \<and> update_file_with_formatted_refs [CR, NL] [CHR ''a'', NL, CHR ''b''] []
     = [CHR ''a'', CR, NL, CHR ''b'']"
  by code_simp

text \<open>
  Claim C3, amended. Take any note file and any list of triples where no URL is the URL of
  an earlier triple, the empty string after an earlier triple, or the stripped citation of
  an earlier triple, and where no formatted citation contains a line break (LF or CR);
  \<open>os.linesep\<close> is LF or CR LF. Then the lines the program reads from the rewritten file are
  the lines it read from the note, in order and unchanged, each line whose stripped
  content is the URL of a triple being followed by an empty line and the formatted
  citation of that triple; the number of lines grows by exactly 2 for each such line. With
  the empty list of triples the lines stay as they are, the file being the text with
  \<open>os.linesep\<close> for every line ending; it is the same file when \<open>os.linesep\<close> is LF and the
  note has no CR.
\<close>

theorem update_file_inserts_refs:
  assumes "linesep = [NL] \<or> linesep = [CR, NL]"
    and "refs_apart (formatted_refs results)"
    and "\<forall>(url, f)\<in>set (formatted_refs results). NL \<notin> set f \<and> CR \<notin> set f"
  shows "file_lines (update_file_with_formatted_refs linesep file results)
           = concat (map (line_with_ref (formatted_refs results)) (file_lines file))
       \<and> length (file_lines (update_file_with_formatted_refs linesep file results))
           = length (file_lines file)
             + 2 * length (filter (\<lambda>line. py_strip line \<in> fst ` set results) (file_lines file))
       \<and> file_lines (update_file_with_formatted_refs linesep file []) = file_lines file
       \<and> update_file_with_formatted_refs linesep file [] = write_text linesep (read_text file)
       \<and> (CR \<notin> set file \<longrightarrow> update_file_with_formatted_refs [NL] file [] = file)"
proof -
  let ?refs = "formatted_refs results"
  let ?content = "read_text file"
  let ?out = "append_formatted_refs ?content results"
  have urls: "fst ` set ?refs = fst ` set results"
    using fst_formatted_refs [of results] by (metis list.set_map)
  have nl: "\<forall>(url, f)\<in>set ?refs. NL \<notin> set f"
    using assms(3) by auto
  have cr_out: "CR \<notin> set ?out"
  proof
    assume "CR \<in> set ?out"
    from chars_append_formatted_refs [OF this]
    show False using read_text_no_CR [of "file"] NL_neq_CR assms(3) by auto
  qed
  have reread: "read_text (write_text linesep ?out) = ?out"
    using assms(1) cr_out by (rule read_write_text)
  have lines: "file_lines (update_file_with_formatted_refs linesep file results)
      = concat (map (line_with_ref ?refs) (file_lines file))"
    unfolding file_lines_def update_file_with_formatted_refs_def reread
    using assms(2) nl by (rule append_formatted_refs_expanded)
  have count: "length (concat (map (line_with_ref ?refs) (file_lines file)))
      = length (file_lines file)
        + 2 * length (filter (\<lambda>line. py_strip line \<in> fst ` set results) (file_lines file))"
    using length_concat_line_with_ref [of ?refs "file_lines file"] by (simp add: urls)
  have empty_lines: "file_lines (update_file_with_formatted_refs linesep file []) = file_lines file"
    using read_write_text [OF assms(1) read_text_no_CR [of "file"]]
    by (simp add: file_lines_def update_file_with_formatted_refs_def)
  have empty_file: "update_file_with_formatted_refs linesep file []
      = write_text linesep (read_text file)"
    by (simp add: update_file_with_formatted_refs_def)
  have same: "update_file_with_formatted_refs [NL] file [] = file" if "CR \<notin> set file"
    using that by (simp add: update_file_with_formatted_refs_def write_text_LF read_text_plain)
  from lines count empty_lines empty_file same show ?thesis by simp
qed

theorem update_file_inserts_refs_witness:
  "file_lines (update_file_with_formatted_refs [NL]
      (''intro'' @ [NL] @ '' https://arxiv.org/abs/2301.00001 '' @ [NL] @ ''end'')
      [(''https://arxiv.org/abs/2301.00001'',
        \<lparr>title = ''Foo'', authors = [''Jane Doe''], venue = ''arXiv'', year = ''2023'',
         arxiv_id = Some ''2301.00001'', doi = None, pdf_url = None, citations = Some 5\<rparr>,
        None)])
   = [''intro'', '' https://arxiv.org/abs/2301.00001 '', [],
      ''**Foo**. Jane Doe. arXiv, 2023 ([arXiv](https://arxiv.org/abs/2301.00001)) (Citations: 5)'',
      ''end'']
   \<and> update_file_with_formatted_refs [NL]
      (''intro'' @ [NL] @ '' https://arxiv.org/abs/2301.00001 '' @ [NL] @ ''end'') []
     = ''intro'' @ [NL] @ '' https://arxiv.org/abs/2301.00001 '' @ [NL] @ ''end''"
proof -
  let ?results = "[(''https://arxiv.org/abs/2301.00001'',
        \<lparr>title = ''Foo'', authors = [''Jane Doe''], venue = ''arXiv'', year = ''2023'',
         arxiv_id = Some ''2301.00001'', doi = None, pdf_url = None, citations = Some 5\<rparr>,
        None :: string option)]"
  let ?file = "''intro'' @ [NL] @ '' https://arxiv.org/abs/2301.00001 '' @ [NL] @ ''end''"
  have h1: "[NL] = [NL] \<or> [NL] = [CR, NL]" by simp
  have h2: "refs_apart (formatted_refs ?results)"
    by code_simp
  have h3: "\<forall>(url, f)\<in>set (formatted_refs ?results). NL \<notin> set f \<and> CR \<notin> set f"
    by code_simp
  have h4: "CR \<notin> set ?file"
    by code_simp
  have rhs: "concat (map (line_with_ref (formatted_refs ?results)) (file_lines ?file))
    = [''intro'', '' https://arxiv.org/abs/2301.00001 '', [],
      ''**Foo**. Jane Doe. arXiv, 2023 ([arXiv](https://arxiv.org/abs/2301.00001)) (Citations: 5)'',
      ''end'']"
    by code_simp
  note main = update_file_inserts_refs [OF h1 h2 h3, of ?file]
  have lines: "file_lines (update_file_with_formatted_refs [NL] ?file ?results)
    = concat (map (line_with_ref (formatted_refs ?results)) (file_lines ?file))"
    using main by (rule conjunct1)
  have "CR \<notin> set ?file \<longrightarrow> update_file_with_formatted_refs [NL] ?file [] = ?file"
    using main by (elim conjE)
  then have same: "update_file_with_formatted_refs [NL] ?file [] = ?file"
    using h4 by (rule mp)
  show ?thesis
    by (rule conjI [OF trans [OF lines rhs] same])
qed

section \<open>Properties of the state manager\<close>

text \<open>
  Claim C1, as stated, fails: a second call with the same URL stores the second call's
  timestamp in place of the first.
\<close>

theorem mark_url_processed_twice_counterexample:
  "processed_urls (state
     (mark_url_processed
        (mark_url_processed \<lparr>state = empty_state, saved = empty_state\<rparr>
           ''https://arxiv.org/abs/2301.00001''
           [(''title'', ''Foo''), (''arxiv_id'', ''2301.00001'')] ''2024-01-01T10:00:00.000001'')
        ''https://arxiv.org/abs/2301.00001''
        [(''title'', ''Foo''), (''arxiv_id'', ''2301.00001'')] ''2024-01-01T10:00:07.000002''))
     ''https://arxiv.org/abs/2301.00001''
   \<noteq> processed_urls (state
        (mark_url_processed \<lparr>state = empty_state, saved = empty_state\<rparr>
           ''https://arxiv.org/abs/2301.00001''
           [(''title'', ''Foo''), (''arxiv_id'', ''2301.00001'')] ''2024-01-01T10:00:00.000001''))
     ''https://arxiv.org/abs/2301.00001''"
  by (simp add: mark_url_processed_def save_state_def empty_state_def)

text \<open>
  Claim C1, amended. For a URL that is already recorded, \<open>mark_url_processed\<close> leaves it
  recorded and adds no second entry: the recorded URLs, the entries of all other URLs and
  the file hashes stay as they are. The entry of the URL itself is replaced by the
  timestamp and the snapshot of this call, and the whole document is written to the state
  file.
\<close>

theorem mark_url_processed_again:
  assumes "is_url_processed sm url"
  shows "is_url_processed (mark_url_processed sm url snapshot now) url
       \<and> dom (processed_urls (state (mark_url_processed sm url snapshot now)))
           = dom (processed_urls (state sm))
       \<and> processed_urls (state (mark_url_processed sm url snapshot now)) url
           = Some \<lparr>processed_at = now, info = snapshot\<rparr>
       \<and> (\<forall>u. u \<noteq> url \<longrightarrow>
             processed_urls (state (mark_url_processed sm url snapshot now)) u
               = processed_urls (state sm) u)
       \<and> file_hashes (state (mark_url_processed sm url snapshot now)) = file_hashes (state sm)
       \<and> saved (mark_url_processed sm url snapshot now)
           = state (mark_url_processed sm url snapshot now)"
  using assms
  by (auto simp: mark_url_processed_def save_state_def is_url_processed_def)

theorem mark_url_processed_again_witness:
  "is_url_processed
     (mark_url_processed \<lparr>state = empty_state, saved = empty_state\<rparr> ''doi:10.1000/x''
        [(''doi'', ''10.1000/x'')] ''2024-01-01T10:00:00'') ''doi:10.1000/x''
   \<and> processed_urls (state
        (mark_url_processed
           (mark_url_processed \<lparr>state = empty_state, saved = empty_state\<rparr> ''doi:10.1000/x''
              [(''doi'', ''10.1000/x'')] ''2024-01-01T10:00:00'')
           ''doi:10.1000/x'' [(''doi'', ''10.1000/x'')] ''2024-01-02T08:30:00'')) ''doi:10.1000/x''
       = Some \<lparr>processed_at = ''2024-01-02T08:30:00'', info = [(''doi'', ''10.1000/x'')]\<rparr>"
proof -
  have h: "is_url_processed
     (mark_url_processed \<lparr>state = empty_state, saved = empty_state\<rparr> ''doi:10.1000/x''
        [(''doi'', ''10.1000/x'')] ''2024-01-01T10:00:00'') ''doi:10.1000/x''"
    by (simp add: mark_url_processed_def save_state_def is_url_processed_def)
  from mark_url_processed_again [OF h, of "[(''doi'', ''10.1000/x'')]" "''2024-01-02T08:30:00''"] h
  show ?thesis by blast
qed

section \<open>Properties of the retry loop\<close>

lemma request_loop_raises:
  "attempt < max_retries \<Longrightarrow> get attempt = Raises \<Longrightarrow>
   request_loop get max_retries attempt sl
     = request_loop get max_retries (Suc attempt)
         (if attempt < max_retries - 1 then sl @ [2] else sl)"
  by (subst request_loop.simps) simp

lemma request_loop_429:
  "attempt < max_retries \<Longrightarrow> get attempt = Response 429 body \<Longrightarrow>
   request_loop get max_retries attempt sl
     = request_loop get max_retries (Suc attempt) (sl @ [(attempt + 1) * 3])"
  by (subst request_loop.simps) simp

lemma request_loop_200:
  "attempt < max_retries \<Longrightarrow> get attempt = Response 200 (Some d) \<Longrightarrow>
   request_loop get max_retries attempt sl
     = \<lparr>returned = Some d, slept = sl, requests_made = Suc attempt\<rparr>"
  by (subst request_loop.simps) simp

lemma request_loop_done:
  "request_loop get max_retries max_retries sl
     = \<lparr>returned = None, slept = sl, requests_made = max_retries\<rparr>"
  by (subst request_loop.simps) simp

text \<open>
  Claim C2, as stated, fails: under a transport fault that persists, three requests are
  made, not two.
\<close>

theorem transport_fault_attempts_counterexample:
  "\<not> requests_made (request_with_retry (\<lambda>attempt. Raises :: unit http_result)) \<le> 2"
  by (simp add: request_with_retry_def request_loop_raises request_loop_done
      numeral_3_eq_3)

text \<open>
  Claim C2, amended. When every attempt of a request ends in a transport fault, the
  request is made three times in all (the first attempt and two retries), with a flat
  sleep of 2 seconds after the first and after the second fault and none after the third,
  and the call then returns nothing.
\<close>

theorem transport_fault_three_attempts:
  assumes "get 0 = Raises" and "get 1 = Raises" and "get 2 = Raises"
  shows "request_with_retry get = \<lparr>returned = None, slept = [2, 2], requests_made = 3\<rparr>"
proof -
  have "request_loop get 3 0 [] = request_loop get 3 1 [2]"
    using assms(1) by (simp add: request_loop_raises)
  also have "\<dots> = request_loop get 3 2 [2, 2]"
    using request_loop_raises [of 1 3 get "[2]"] assms(2) by (simp add: numeral_2_eq_2)
  also have "\<dots> = request_loop get 3 3 [2, 2]"
    using request_loop_raises [of 2 3 get "[2, 2]"] assms(3) by (simp add: numeral_3_eq_3)
  finally show ?thesis
    by (simp add: request_with_retry_def request_loop_done)
qed

theorem transport_fault_three_attempts_witness:
  "request_with_retry (\<lambda>attempt. Raises :: unit http_result)
     = \<lparr>returned = None, slept = [2, 2], requests_made = 3\<rparr>"
  using transport_fault_three_attempts [of "\<lambda>attempt. Raises :: unit http_result"]
  by simp

text \<open>
  Claim C5. A request answered with status 429 on the first and on the second attempt and
  with status 200 on the third returns the body of the third response after exactly
  three requests, and it has slept for 3 seconds and then for 6 seconds, nothing else.
\<close>

theorem rate_limited_twice_then_success:
  assumes "get 0 = Response 429 b0" and "get 1 = Response 429 b1"
    and "get 2 = Response 200 (Some d)"
  shows "request_with_retry get = \<lparr>returned = Some d, slept = [3, 6], requests_made = 3\<rparr>"
proof -
  have "request_loop get 3 0 [] = request_loop get 3 1 [3]"
    using request_loop_429 [of 0 3 get b0 "[]"] assms(1) by simp
  also have "\<dots> = request_loop get 3 2 [3, 6]"
    using request_loop_429 [of 1 3 get b1 "[3]"] assms(2) by (simp add: numeral_2_eq_2)
  also have "\<dots> = \<lparr>returned = Some d, slept = [3, 6], requests_made = 3\<rparr>"
    using request_loop_200 [of 2 3 get d "[3, 6]"] assms(3) by (simp add: numeral_3_eq_3)
  finally show ?thesis
    by (simp add: request_with_retry_def)
qed

theorem rate_limited_twice_then_success_witness:
  "request_with_retry
     (\<lambda>attempt. if attempt < 2 then Response 429 None else Response 200 (Some ''{}''))
     = \<lparr>returned = Some ''{}'', slept = [3, 6], requests_made = 3\<rparr>"
  using rate_limited_twice_then_success
    [of "\<lambda>attempt. if attempt < 2 then Response 429 None else Response 200 (Some ''{}'')"
        None None "''{}''"]
  by simp

section \<open>Properties of the URL parser\<close>

lemma first_some_SomeD: "first_some xs = Some x \<Longrightarrow> Some x \<in> set xs"
  by (induction xs rule: first_some.induct) auto

lemma match_here_One:
  "match_here (One p # rest) mk s =
     (case s of [] \<Rightarrow> None | x # s' \<Rightarrow> if p x then match_here rest mk s' else None)"
  by (cases s) simp_all

lemma match_here_RepD:
  assumes "match_here (Rep p lo hi # rest) mk s = Some x"
  obtains k where "lo \<le> k" and "k \<le> length (takeWhile p s)"
    and "\<And>h. hi = Some h \<Longrightarrow> k \<le> h"
    and "match_here rest mk (drop k s) = Some x"
proof -
  let ?n = "length (takeWhile p s)"
  let ?m = "case hi of None \<Rightarrow> ?n | Some h \<Rightarrow> min ?n h"
  from assms have "first_some (map (\<lambda>k. match_here rest mk (drop k s)) (rev [lo..<Suc ?m])) = Some x"
    by (simp add: Let_def split: if_splits)
  then have "Some x \<in> set (map (\<lambda>k. match_here rest mk (drop k s)) (rev [lo..<Suc ?m]))"
    by (rule first_some_SomeD)
  then obtain k where k: "lo \<le> k" "k \<le> ?m" "match_here rest mk (drop k s) = Some x"
    by auto
  have "?m \<le> ?n" by (cases hi) auto
  moreover have "k \<le> h" if "hi = Some h" for h using k(2) that by simp
  ultimately show thesis using k that by auto
qed

lemma take_takeWhile: "k \<le> length (takeWhile p s) \<Longrightarrow> c \<in> set (take k s) \<Longrightarrow> p c"
proof (induction s arbitrary: k)
  case Nil
  then show ?case by simp
next
  case (Cons x xs)
  then show ?case
    by (cases k) (auto split: if_splits)
qed

lemma take_drop_run:
  assumes "k \<le> length (takeWhile p s)"
  shows "s = take k s @ drop k s" and "length (take k s) = k"
proof -
  show "s = take k s @ drop k s" by simp
  have "length (takeWhile p s) \<le> length s" by (rule length_takeWhile_le)
  with assms show "length (take k s) = k" by simp
qed

lemma http_alt_match:
  assumes "match_here http_alt mk s = Some (mk', r)"
  shows "\<exists>b. b \<noteq> [] \<and> (s = ''http://'' @ b @ r \<or> s = ''https://'' @ b @ r)"
proof -
  from assms obtain s4 where s: "s = ''http'' @ s4"
    and m1: "match_here (Rep (\<lambda>x. x = CHR ''s'') 0 (Some 1) # map lit ''://'' @ [Rep url_char 1 None])
               mk s4 = Some (mk', r)"
    by (auto simp: http_alt_def lit_def match_here_One split: list.splits if_splits)
  from m1 obtain k where k: "k \<le> length (takeWhile (\<lambda>x. x = CHR ''s'') s4)" "k \<le> 1"
    and m2: "match_here (map lit ''://'' @ [Rep url_char 1 None]) mk (drop k s4) = Some (mk', r)"
    by (rule match_here_RepD) auto
  from m2 obtain s7 where d: "drop k s4 = ''://'' @ s7"
    and m3: "match_here [Rep url_char 1 None] mk s7 = Some (mk', r)"
    by (auto simp: lit_def match_here_One split: list.splits if_splits)
  from m3 obtain k2 where k2: "1 \<le> k2" "k2 \<le> length (takeWhile url_char s7)"
    and m4: "match_here [] mk (drop k2 s7) = Some (mk', r)"
    by (rule match_here_RepD) auto
  from m4 have r: "r = drop k2 s7" by simp
  have b: "take k2 s7 \<noteq> []"
    using k2 take_drop_run(2) [OF k2(2)] by auto
  have s7: "s7 = take k2 s7 @ r" by (simp add: r)
  have pre: "take k s4 = [] \<or> take k s4 = ''s''"
  proof (cases k)
    case 0
    then show ?thesis by simp
  next
    case (Suc j)
    with k(2) have k1: "k = 1" by simp
    with k(1) obtain y ys where s4: "s4 = y # ys" by (cases s4) auto
    from take_takeWhile [OF k(1), of y] k1 s4 have "y = CHR ''s''" by simp
    with k1 s4 show ?thesis by simp
  qed
  have "s4 = take k s4 @ ''://'' @ take k2 s7 @ r"
    using d s7 by (metis append_take_drop_id)
  with pre s b show ?thesis by auto
qed

lemma doi_alt_match:
  assumes "match_here doi_alt mk s = Some (mk', r)"
  shows "\<exists>a b. b \<noteq> [] \<and> s = ''doi:'' @ a @ CHR ''/'' # b @ r"
proof -
  from assms obtain s4 where s: "s = ''doi:'' @ s4"
    and m1: "match_here (Rep py_isspace 0 None # map lit ''10.''
               @ [Rep re_digit 4 None, lit (CHR ''/''), Rep url_char 1 None]) mk s4 = Some (mk', r)"
    by (auto simp: doi_alt_def lit_def match_here_One split: list.splits if_splits)
  from m1 obtain k where
    m2: "match_here (map lit ''10.'' @ [Rep re_digit 4 None, lit (CHR ''/''), Rep url_char 1 None])
           mk (drop k s4) = Some (mk', r)"
    by (rule match_here_RepD) auto
  from m2 obtain s7 where d: "drop k s4 = ''10.'' @ s7"
    and m3: "match_here [Rep re_digit 4 None, lit (CHR ''/''), Rep url_char 1 None] mk s7
               = Some (mk', r)"
    by (auto simp: lit_def match_here_One split: list.splits if_splits)
  from m3 obtain k3 where
    m4: "match_here [lit (CHR ''/''), Rep url_char 1 None] mk (drop k3 s7) = Some (mk', r)"
    by (rule match_here_RepD) auto
  from m4 obtain s8 where d3: "drop k3 s7 = CHR ''/'' # s8"
    and m5: "match_here [Rep url_char 1 None] mk s8 = Some (mk', r)"
    by (auto simp: lit_def match_here_One split: list.splits if_splits)
  from m5 obtain k2 where k2: "1 \<le> k2" "k2 \<le> length (takeWhile url_char s8)"
    and m6: "match_here [] mk (drop k2 s8) = Some (mk', r)"
    by (rule match_here_RepD) auto
  from m6 have r: "r = drop k2 s8" by simp
  have b: "take k2 s8 \<noteq> []"
    using k2 take_drop_run(2) [OF k2(2)] by auto
  have s8: "s8 = take k2 s8 @ r" by (simp add: r)
  have s7: "s7 = take k3 s7 @ CHR ''/'' # take k2 s8 @ r"
    using d3 s8 by (metis append_take_drop_id)
  have "s4 = take k s4 @ ''10.'' @ take k3 s7 @ CHR ''/'' # take k2 s8 @ r"
    using d s7 by (metis append_take_drop_id)
  then have "s = ''doi:'' @ (take k s4 @ ''10.'' @ take k3 s7) @ CHR ''/'' # take k2 s8 @ r"
    using s by simp
  with b show ?thesis by blast
qed

lemma url_pattern_match:
  assumes "match_alts url_pattern s = Some r"
  shows "\<exists>a b. s = (a @ CHR ''/'' # b) @ r \<and> b \<noteq> []
           \<and> (a = ''http:/'' \<or> a = ''https:/'' \<or> prefix ''doi:'' a)"
proof (cases "match_here http_alt s s")
  case (Some x)
  obtain mk' r' where x: "x = (mk', r')" by (cases x)
  with Some assms have "r' = r" by (simp add: url_pattern_def)
  with Some x have "match_here http_alt s s = Some (mk', r)" by simp
  from http_alt_match [OF this] obtain b where "b \<noteq> []"
    and "s = ''http://'' @ b @ r \<or> s = ''https://'' @ b @ r" by blast
  then have "(s = (''http:/'' @ CHR ''/'' # b) @ r \<or> s = (''https:/'' @ CHR ''/'' # b) @ r) \<and> b \<noteq> []"
    by simp
  then show ?thesis by blast
next
  case None
  with assms obtain mk' where "match_here doi_alt s s = Some (mk', r)"
    by (auto simp: url_pattern_def split: option.splits)
  from doi_alt_match [OF this] obtain a b where "b \<noteq> []" and "s = ''doi:'' @ a @ CHR ''/'' # b @ r"
    by blast
  then have "s = ((''doi:'' @ a) @ CHR ''/'' # b) @ r \<and> b \<noteq> [] \<and> prefix ''doi:'' (''doi:'' @ a)"
    by simp
  then show ?thesis by blast
qed

lemma py_rstrip_keep: "\<not> p c \<Longrightarrow> py_rstrip p (a @ c # b) = a @ c # py_rstrip p b"
proof -
  assume c: "\<not> p c"
  have "dropWhile p (rev b @ c # rev a) = dropWhile p (rev b) @ c # rev a"
  proof (cases "\<forall>x\<in>set (rev b). p x")
    case True
    then have "dropWhile p (rev b @ c # rev a) = dropWhile p (c # rev a)"
      by (intro dropWhile_append2) simp
    moreover from True have "dropWhile p (rev b) = []" by simp
    ultimately show ?thesis using c by simp
  next
    case False
    then show ?thesis by (auto simp: dropWhile_append1)
  qed
  then show ?thesis by (simp add: py_rstrip_def)
qed

lemma py_rstrip_prefix: "prefix (py_rstrip p m) m"
proof -
  have "suffix (dropWhile p (rev m)) (rev m)" by (rule suffix_dropWhile)
  then have "prefix (rev (dropWhile p (rev m))) (rev (rev m))"
    by (simp only: suffix_to_prefix rev_rev_ident)
  then show ?thesis by (simp add: py_rstrip_def)
qed

lemma py_rstrip_last: "py_rstrip p m \<noteq> [] \<Longrightarrow> \<not> p (last (py_rstrip p m))"
  by (simp add: py_rstrip_def last_rev hd_dropWhile)

lemma re_finditer_elems:
  assumes "\<And>s r. match_alts alts s = Some r \<Longrightarrow> \<exists>m. s = m @ r \<and> m \<noteq> [] \<and> Q m"
    and "(p, m) \<in> set (re_finditer alts pos s)"
  shows "pos \<le> p \<and> take (length m) (drop (p - pos) s) = m \<and> Q m"
  using assms
proof (induction alts pos s arbitrary: p m rule: re_finditer.induct)
  case (1 alts pos s)
  note H = "1.prems"(1)
  show ?case
  proof (cases "match_alts alts s")
    case None
    show ?thesis
    proof (cases s)
      case Nil
      with None "1.prems"(2) show ?thesis by (simp add: re_finditer.simps)
    next
      case (Cons c s')
      with None "1.prems"(2) have "(p, m) \<in> set (re_finditer alts (Suc pos) s')"
        by (simp add: re_finditer.simps)
      from "1.IH"(1) [OF None Cons H this]
      have ih: "Suc pos \<le> p" "take (length m) (drop (p - Suc pos) s') = m" "Q m" by auto
      from ih(1) have "p - pos = Suc (p - Suc pos)" by simp
      with ih Cons show ?thesis by simp
    qed
  next
    case (Some r)
    from H [OF Some] obtain m0 where m0: "s = m0 @ r" "m0 \<noteq> []" "Q m0" by blast
    then have len: "length r < length s" by simp
    have tk: "take (length s - length r) s = m0" using m0 by simp
    from Some len tk have unfold: "re_finditer alts pos s
        = (pos, m0) # re_finditer alts (pos + (length s - length r)) r"
      by (subst re_finditer.simps) simp
    from "1.prems"(2) unfold
    have "(p, m) = (pos, m0) \<or> (p, m) \<in> set (re_finditer alts (pos + (length s - length r)) r)"
      by simp
    then show ?thesis
    proof
      assume "(p, m) = (pos, m0)"
      with m0 show ?thesis by simp
    next
      assume "(p, m) \<in> set (re_finditer alts (pos + (length s - length r)) r)"
      from "1.IH"(2) [OF Some len H this]
      have ih: "pos + (length s - length r) \<le> p"
        "take (length m) (drop (p - (pos + (length s - length r))) r) = m" "Q m" by auto
      have l: "length s - length r = length m0" using m0 by simp
      from ih(1) l have "p - pos = length m0 + (p - (pos + length m0))" by simp
      then have "drop (p - pos) s = drop (p - (pos + length m0)) r"
        using m0(1) by (metis add.commute append_eq_conv_conj drop_drop)
      with ih l show ?thesis by simp
    qed
  qed
qed

lemma re_finditer_in_order:
  assumes "\<And>s r. match_alts alts s = Some r \<Longrightarrow> \<exists>m. s = m @ r \<and> m \<noteq> [] \<and> Q m"
  shows "in_order_from pos (re_finditer alts pos s)"
  using assms
proof (induction alts pos s rule: re_finditer.induct)
  case (1 alts pos s)
  note H = "1.prems"
  have weaken: "in_order_from lo xs" if "in_order_from (Suc lo) xs" for lo xs
    using that by (cases xs) auto
  show ?case
  proof (cases "match_alts alts s")
    case None
    show ?thesis
    proof (cases s)
      case Nil
      with None show ?thesis by (simp add: re_finditer.simps)
    next
      case (Cons c s')
      from "1.IH"(1) [OF None Cons H] have "in_order_from (Suc pos) (re_finditer alts (Suc pos) s')" .
      then have "in_order_from pos (re_finditer alts (Suc pos) s')" by (rule weaken)
      with None Cons show ?thesis by (simp add: re_finditer.simps)
    qed
  next
    case (Some r)
    from H [OF Some] obtain m0 where m0: "s = m0 @ r" "m0 \<noteq> []" by blast
    then have len: "length r < length s" by simp
    have tk: "take (length s - length r) s = m0" using m0 by simp
    have l: "length s - length r = length m0" using m0 by simp
    from Some len tk have unfold: "re_finditer alts pos s
        = (pos, m0) # re_finditer alts (pos + (length s - length r)) r"
      by (subst re_finditer.simps) simp
    from "1.IH"(2) [OF Some len H]
    have "in_order_from (pos + (length s - length r)) (re_finditer alts (pos + (length s - length r)) r)" .
    with unfold l show ?thesis by simp
  qed
qed

lemma in_order_from_mono: "in_order_from lo' xs \<Longrightarrow> lo \<le> lo' \<Longrightarrow> in_order_from lo xs"
  by (cases xs) auto

lemma in_order_from_shorten:
  assumes "\<And>m. length (f m) \<le> length m"
  shows "in_order_from lo xs \<Longrightarrow> in_order_from lo (map (\<lambda>(pos, m). (pos, f m)) xs)"
proof (induction xs arbitrary: lo)
  case Nil
  then show ?case by simp
next
  case (Cons x xs)
  obtain pos m where x: "x = (pos, m)" by (cases x)
  from Cons.prems x have lo: "lo \<le> pos" and rest: "in_order_from (pos + length m) xs" by auto
  have "pos + length (f m) \<le> pos + length m" using assms by simp
  with rest have "in_order_from (pos + length (f m)) xs" by (rule in_order_from_mono)
  then have "in_order_from (pos + length (f m)) (map (\<lambda>(pos, m). (pos, f m)) xs)"
    by (rule Cons.IH)
  with lo x show ?case by simp
qed

lemma url_pattern_nonempty_match:
  assumes "match_alts url_pattern s = Some r"
  shows "\<exists>m. s = m @ r \<and> m \<noteq> []
           \<and> (\<exists>a b. m = a @ CHR ''/'' # b
                  \<and> (a = ''http:/'' \<or> a = ''https:/'' \<or> prefix ''doi:'' a))"
  using url_pattern_match [OF assms] by blast

text \<open>
  Claim C8. For every text, \<open>find_urls_in_text\<close> returns the URLs of its matches in the
  order of their positions in the text, one for each match, the matches not overlapping.
  Every returned URL stands in the text at the position of its match, starts with
  \<open>http://\<close>, \<open>https://\<close> or \<open>doi:\<close>, and does not end with one of the characters
  \<open>.,;:\<close>.
\<close>

theorem find_urls_in_text_ordered_stripped:
  "find_urls_in_text text = map snd (url_occurrences text)
   \<and> in_order_from 0 (url_occurrences text)
   \<and> (\<forall>(pos, u)\<in>set (url_occurrences text).
         take (length u) (drop pos text) = u
         \<and> (prefix ''http://'' u \<or> prefix ''https://'' u \<or> prefix ''doi:'' u)
         \<and> \<not> trailing_punct (last u))"
proof -
  have names: "find_urls_in_text text = map snd (url_occurrences text)"
    by (simp add: find_urls_in_text_def url_occurrences_def re_findall_def case_prod_unfold)
  have "in_order_from 0 (re_finditer url_pattern 0 text)"
    using url_pattern_nonempty_match by (rule re_finditer_in_order)
  then have order: "in_order_from 0 (url_occurrences text)"
    unfolding url_occurrences_def
    by (rule in_order_from_shorten [rotated]) (simp add: prefix_length_le py_rstrip_prefix)
  have each: "take (length u) (drop pos text) = u
         \<and> (prefix ''http://'' u \<or> prefix ''https://'' u \<or> prefix ''doi:'' u)
         \<and> \<not> trailing_punct (last u)"
    if "(pos, u) \<in> set (url_occurrences text)" for pos u
  proof -
    from that obtain m where m: "(pos, m) \<in> set (re_finditer url_pattern 0 text)"
      and u: "u = py_rstrip trailing_punct m"
      by (auto simp: url_occurrences_def)
    let ?Q = "\<lambda>m. \<exists>a b. m = a @ CHR ''/'' # b
                 \<and> (a = ''http:/'' \<or> a = ''https:/'' \<or> prefix ''doi:'' a)"
    have "0 \<le> pos \<and> take (length m) (drop (pos - 0) text) = m \<and> ?Q m"
    proof (rule re_finditer_elems [where Q = ?Q and alts = url_pattern])
      show "\<exists>m. s = m @ r \<and> m \<noteq> [] \<and> ?Q m" if "match_alts url_pattern s = Some r" for s r
        using that by (rule url_pattern_nonempty_match)
      show "(pos, m) \<in> set (re_finditer url_pattern 0 text)" by (rule m)
    qed
    then obtain a b where loc: "take (length m) (drop pos text) = m"
      and shape: "m = a @ CHR ''/'' # b"
      and a: "a = ''http:/'' \<or> a = ''https:/'' \<or> prefix ''doi:'' a"
      by (elim conjE exE) simp
    have slash: "\<not> trailing_punct (CHR ''/'')" by (simp add: trailing_punct_def)
    have u': "u = a @ CHR ''/'' # py_rstrip trailing_punct b"
      using u shape py_rstrip_keep [of trailing_punct "CHR ''/''" a b] slash by simp
    have "prefix u m" using u by (simp add: py_rstrip_prefix)
    then obtain t where "m = u @ t" by (auto simp: prefix_def)
    then have "take (length u) m = u" by simp
    moreover have "take (length u) (take (length m) (drop pos text)) = take (length u) (drop pos text)"
      using \<open>m = u @ t\<close> by (simp add: min_def)
    ultimately have located: "take (length u) (drop pos text) = u"
      using loc by simp
    have starts: "prefix ''http://'' u \<or> prefix ''https://'' u \<or> prefix ''doi:'' u"
      using a u' by (auto simp: prefix_def)
    have "u \<noteq> []" using u' by simp
    then have "\<not> trailing_punct (last u)" unfolding u by (rule py_rstrip_last)
    with located starts show ?thesis by simp
  qed
  from names order each show ?thesis by blast
qed

theorem find_urls_in_text_ordered_stripped_witness:
  "find_urls_in_text ''see https://x.org/a. doi:10.1000/b;''
     = [''https://x.org/a'', ''doi:10.1000/b'']
   \<and> in_order_from 0 (url_occurrences ''see https://x.org/a. doi:10.1000/b;'')
   \<and> take (length ''https://x.org/a'') (drop 4 ''see https://x.org/a. doi:10.1000/b;'')
       = ''https://x.org/a''
   \<and> \<not> trailing_punct (last ''https://x.org/a'')"
proof -
  let ?T = "''see https://x.org/a. doi:10.1000/b;''"
  let ?u = "''https://x.org/a''"
  note main = find_urls_in_text_ordered_stripped [of ?T]
  have occ: "url_occurrences ?T = [(4, ?u), (21, ''doi:10.1000/b'')]"
    by code_simp
  have names: "find_urls_in_text ?T = map snd (url_occurrences ?T)"
    using main by (rule conjunct1)
  have urls: "find_urls_in_text ?T = [?u, ''doi:10.1000/b'']"
    unfolding names occ by (simp only: list.map snd_conv)
  have order: "in_order_from 0 (url_occurrences ?T)"
    using main by (elim conjE)
  have each: "\<forall>(pos, u)\<in>set (url_occurrences ?T).
         take (length u) (drop pos ?T) = u
         \<and> (prefix ''http://'' u \<or> prefix ''https://'' u \<or> prefix ''doi:'' u)
         \<and> \<not> trailing_punct (last u)"
    using main by (elim conjE)
  have mem: "(4, ?u) \<in> set (url_occurrences ?T)"
    unfolding occ by (rule list.set_intros(1))
  have one: "take (length ?u) (drop 4 ?T) = ?u
         \<and> (prefix ''http://'' ?u \<or> prefix ''https://'' ?u \<or> prefix ''doi:'' ?u)
         \<and> \<not> trailing_punct (last ?u)"
    using bspec [OF each mem] unfolding prod.case .
  from one have located: "take (length ?u) (drop 4 ?T) = ?u" by (rule conjunct1)
  from one have nopunct: "\<not> trailing_punct (last ?u)" by (elim conjE)
  from urls order located nopunct show ?thesis by (intro conjI)
qed

text \<open>
  On new-style identifiers the version suffix goes when its \<open>v\<close> is in lower case, and
  stays when it is in upper case, which the patterns accept as well.
\<close>

lemma extract_arxiv_id_new_style:
  "extract_arxiv_id ''arxiv.org/abs/2301.00001v3'' = Some ''2301.00001''
   \<and> extract_arxiv_id ''arxiv.org/abs/2301.00001'' = Some ''2301.00001''"
  by code_simp

lemma extract_arxiv_id_upper_case_version:
  "extract_arxiv_id ''arxiv.org/abs/2301.00001V3'' = Some ''2301.00001V3''"
  by code_simp

text \<open>
  Claim C4. \<open>extract_arxiv_id\<close> cuts the identifier at its first \<open>v\<close>, wherever that is:
  for the old-style identifier \<open>solv-int/9901001\<close> it returns \<open>sol\<close>, although the
  identifier has no version suffix; the claim has the identifier returned whole.
\<close>

theorem extract_arxiv_id_cuts_category:
  "extract_arxiv_id ''https://arxiv.org/abs/solv-int/9901001'' = Some ''sol''"
  by code_simp

section \<open>Properties of processing a note\<close>

lemma mark_url_processed_marks: "is_url_processed (mark_url_processed sm url snapshot stamp) url"
  by (simp add: mark_url_processed_def save_state_def is_url_processed_def)

lemma mark_url_processed_keeps:
  "is_url_processed sm u \<Longrightarrow> is_url_processed (mark_url_processed sm url snapshot stamp) u"
  by (simp add: mark_url_processed_def save_state_def is_url_processed_def)

lemma download_no_error: "fst (download env u path n) \<noteq> Inl (Error msg)"
  by (auto simp: download_def download_handler_def
      split: prod.splits sum.splits py_error.splits)

lemma process_arxiv_manager:
  "process_arxiv env aid w = (r, w1) \<Longrightarrow> manager w1 = manager w"
  by (auto simp: process_arxiv_def split: prod.splits sum.splits option.splits if_splits)

lemma process_arxiv_unresolved:
  assumes "ss_full_paper_info env aid (net w) = (Inr None, n1)"
    and "arxiv_paper_info env aid n1 = (Inr None, n2)"
  shows "process_arxiv env aid w = (Inr None, w\<lparr>net := n2\<rparr>)"
  using assms by (simp add: process_arxiv_def)

lemma process_url_results:
  assumes "process_url env pdf_dir filepath url w results = (Inr rs, w')"
  shows "rs = results
       \<or> (truthy (extract_arxiv_id url) \<and> (\<exists>p pdf. rs = results @ [(url, p, pdf)]))"
  using assms
  by (auto simp: process_url_def Let_def
      split: if_splits prod.splits sum.splits option.splits)

lemma process_url_keeps_processed:
  assumes "process_url env pdf_dir filepath url w results = (r, w')"
    and "is_url_processed (manager w) u"
  shows "is_url_processed (manager w') u"
  using assms
  by (auto simp: process_url_def Let_def mark_url_processed_keeps
      dest: process_arxiv_manager
      split: if_splits prod.splits sum.splits option.splits)

lemma process_url_doi:
  assumes "\<not> truthy (extract_arxiv_id url)" and "truthy (extract_doi url)"
    and "process_url env pdf_dir filepath url w results = (r, w')"
  shows "r = Inr results \<and> is_url_processed (manager w') url"
  using assms
  by (auto simp: process_url_def mark_url_processed_marks split: if_splits prod.splits)

lemma process_urls_keeps_processed:
  "process_urls env pdf_dir filepath urls w results = (r, w') \<Longrightarrow>
   is_url_processed (manager w) u \<Longrightarrow> is_url_processed (manager w') u"
proof (induction urls arbitrary: w results)
  case Nil
  then show ?case by simp
next
  case (Cons url urls)
  obtain r1 w1 where step: "process_url env pdf_dir filepath url w results = (r1, w1)"
    by (cases "process_url env pdf_dir filepath url w results")
  from step Cons.prems(2) have kept: "is_url_processed (manager w1) u"
    by (rule process_url_keeps_processed)
  show ?case
  proof (cases r1)
    case (Inl e)
    with step Cons.prems(1) have "w' = w1" by simp
    with kept show ?thesis by simp
  next
    case (Inr results1)
    with step Cons.prems(1)
    have "process_urls env pdf_dir filepath urls w1 results1 = (r, w')" by simp
    from Cons.IH [OF this kept] show ?thesis .
  qed
qed

lemma process_urls_results:
  "process_urls env pdf_dir filepath urls w results = (Inr rs, w') \<Longrightarrow>
   \<exists>new. rs = results @ new \<and> (\<forall>(u, p, pdf)\<in>set new. u \<in> set urls \<and> truthy (extract_arxiv_id u))"
proof (induction urls arbitrary: w results)
  case Nil
  then show ?case by simp
next
  case (Cons url urls)
  obtain r1 w1 where step: "process_url env pdf_dir filepath url w results = (r1, w1)"
    by (cases "process_url env pdf_dir filepath url w results")
  show ?case
  proof (cases r1)
    case (Inl e)
    with step Cons.prems show ?thesis by simp
  next
    case (Inr results1)
    with step Cons.prems
    have rest: "process_urls env pdf_dir filepath urls w1 results1 = (Inr rs, w')" by simp
    from Cons.IH [OF rest] obtain new where new: "rs = results1 @ new"
      "\<forall>(u, p, pdf)\<in>set new. u \<in> set urls \<and> truthy (extract_arxiv_id u)" by blast
    from step Inr have "process_url env pdf_dir filepath url w results = (Inr results1, w1)"
      by simp
    from process_url_results [OF this]
    show ?thesis
    proof
      assume "results1 = results"
      with new have "rs = results @ new
        \<and> (\<forall>(u, p, pdf)\<in>set new. u \<in> set (url # urls) \<and> truthy (extract_arxiv_id u))"
        by auto
      then show ?thesis by blast
    next
      assume "truthy (extract_arxiv_id url) \<and> (\<exists>p pdf. results1 = results @ [(url, p, pdf)])"
      then obtain p pdf where t: "truthy (extract_arxiv_id url)"
        and r1: "results1 = results @ [(url, p, pdf)]" by blast
      with new have "rs = results @ ((url, p, pdf) # new)
        \<and> (\<forall>(u, p, pdf)\<in>set ((url, p, pdf) # new).
              u \<in> set (url # urls) \<and> truthy (extract_arxiv_id u))"
        by auto
      then show ?thesis by blast
    qed
  qed
qed

lemma process_urls_marks_doi:
  assumes "\<not> truthy (extract_arxiv_id url)" and "truthy (extract_doi url)"
  shows "process_urls env pdf_dir filepath urls w results = (Inr rs, w') \<Longrightarrow>
         url \<in> set urls \<Longrightarrow> is_url_processed (manager w') url"
proof (induction urls arbitrary: w results)
  case Nil
  then show ?case by simp
next
  case (Cons u urls)
  obtain r1 w1 where step: "process_url env pdf_dir filepath u w results = (r1, w1)"
    by (cases "process_url env pdf_dir filepath u w results")
  from step Cons.prems(1) obtain results1 where r1: "r1 = Inr results1"
    and rest: "process_urls env pdf_dir filepath urls w1 results1 = (Inr rs, w')"
    by (cases r1) auto
  show ?case
  proof (cases "u = url")
    case True
    with step assms have "is_url_processed (manager w1) url"
      using process_url_doi [of url env pdf_dir filepath w results r1 w1] by simp
    with rest show ?thesis by (rule process_urls_keeps_processed)
  next
    case False
    with Cons.prems(2) have "url \<in> set urls" by simp
    with rest show ?thesis by (rule Cons.IH)
  qed
qed

lemma to_markdown_no_pdf:
  "to_markdown p None =
     ''**'' @ title p @ ''**. '' @ format_authors p 3 @ ''. '' @ venue p @ '', '' @ year p
     @ (if truthy (arxiv_id p)
        then '' ([arXiv](https://arxiv.org/abs/'' @ the (arxiv_id p) @ ''))'' else [])
     @ (if truthy (doi p) then '' ([DOI](https://doi.org/'' @ the (doi p) @ ''))'' else [])
     @ (case citations p of
          Some n \<Rightarrow> '' (Citations: '' @ str_int n @ '')''
        | None \<Rightarrow> '' (Citations: N/A)'')"
  by (simp add: to_markdown_def Let_def truthy_def split: option.splits)

lemma extract_arxiv_id_new_style_http:
  "extract_arxiv_id ''http://arxiv.org/abs/2301.00001'' = Some ''2301.00001''"
  by code_simp

lemma extract_doi_url:
  "extract_arxiv_id ''doi:10.1000/x'' = None \<and> extract_doi ''doi:10.1000/x'' = Some ''10.1000/x''"
  by code_simp

text \<open>
  Claim C6. For a link that is not yet recorded and has an arXiv identifier, when
  Semantic Scholar and then the arXiv service both return no record: the loop body raises
  nothing and returns the results as they were, the state manager is as it was, so the
  link is still not recorded, and the loop goes on with the remaining URLs of the note.
\<close>

theorem unresolved_link_skipped:
  assumes "\<not> is_url_processed (manager w) url"
    and "extract_arxiv_id url = Some aid" and "aid \<noteq> []"
    and "ss_full_paper_info env aid (net w) = (Inr None, n1)"
    and "arxiv_paper_info env aid n1 = (Inr None, n2)"
  shows "process_url env pdf_dir filepath url w results = (Inr results, w\<lparr>net := n2\<rparr>)
       \<and> \<not> is_url_processed (manager (w\<lparr>net := n2\<rparr>)) url
       \<and> process_urls env pdf_dir filepath (url # urls) w results
           = process_urls env pdf_dir filepath urls (w\<lparr>net := n2\<rparr>) results"
proof -
  have "process_arxiv env aid w = (Inr None, w\<lparr>net := n2\<rparr>)"
    using assms(4,5) by (rule process_arxiv_unresolved)
  with assms(1-3)
  have step: "process_url env pdf_dir filepath url w results = (Inr results, w\<lparr>net := n2\<rparr>)"
    by (simp add: process_url_def truthy_def)
  moreover from assms(1) have "\<not> is_url_processed (manager (w\<lparr>net := n2\<rparr>)) url" by simp
  moreover from step have "process_urls env pdf_dir filepath (url # urls) w results
           = process_urls env pdf_dir filepath urls (w\<lparr>net := n2\<rparr>) results"
    by simp
  ultimately show ?thesis by simp
qed

theorem unresolved_link_skipped_witness:
  "process_urls
     \<lparr>ss_full_paper_info = (\<lambda>a n. (Inr None, Suc n)),
      arxiv_paper_info = (\<lambda>a n. (Inr None, Suc n)),
      ss_citations = (\<lambda>a n. (Inr None, Suc n)),
      http_get = (\<lambda>u n. (Inl (Error ''timeout''), Suc n)),
      save_body = (\<lambda>path n. (Inr (), Suc n)),
      datetime_now = (\<lambda>n. (''2024-01-01T10:00:00'', n)),
      os_path_join = (\<lambda>a b. a @ ''/'' @ b),
      os_path_dirname = (\<lambda>path. ''notes''),
      os_path_relpath = (\<lambda>path start. Inr path)\<rparr>
     ''pdfs'' ''notes/a.md'' [''http://arxiv.org/abs/2301.00001'']
     \<lparr>manager = \<lparr>state = empty_state, saved = empty_state\<rparr>, net = 0 :: nat, paused = []\<rparr> []
   = (Inr [], \<lparr>manager = \<lparr>state = empty_state, saved = empty_state\<rparr>, net = 0 :: nat, paused = []\<rparr>\<lparr>net := Suc (Suc 0)\<rparr>)
   \<and> \<not> is_url_processed
        (manager (\<lparr>manager = \<lparr>state = empty_state, saved = empty_state\<rparr>, net = 0 :: nat, paused = []\<rparr>\<lparr>net := Suc (Suc 0)\<rparr>))
        ''http://arxiv.org/abs/2301.00001''"
proof -
  let ?E = "\<lparr>ss_full_paper_info = (\<lambda>a n. (Inr None, Suc n)),
      arxiv_paper_info = (\<lambda>a n. (Inr None, Suc n)),
      ss_citations = (\<lambda>a n. (Inr None, Suc n)),
      http_get = (\<lambda>u n. (Inl (Error ''timeout''), Suc n)),
      save_body = (\<lambda>path n. (Inr (), Suc n)),
      datetime_now = (\<lambda>n. (''2024-01-01T10:00:00'', n)),
      os_path_join = (\<lambda>a b. a @ ''/'' @ b),
      os_path_dirname = (\<lambda>path. ''notes''),
      os_path_relpath = (\<lambda>path start. Inr path)\<rparr>"
  let ?W = "\<lparr>manager = \<lparr>state = empty_state, saved = empty_state\<rparr>, net = 0 :: nat, paused = []\<rparr>"
  have h1: "\<not> is_url_processed (manager ?W) ''http://arxiv.org/abs/2301.00001''"
    by (simp add: is_url_processed_def empty_state_def)
  have h3: "''2301.00001'' \<noteq> []" by simp
  have h4: "ss_full_paper_info ?E ''2301.00001'' (net ?W) = (Inr None, Suc 0)" by simp
  have h5: "arxiv_paper_info ?E ''2301.00001'' (Suc 0) = (Inr None, Suc (Suc 0))" by simp
  note main = unresolved_link_skipped
    [where env = ?E and w = ?W and pdf_dir = "''pdfs''" and filepath = "''notes/a.md''"
       and results = "[]" and urls = "[]",
     OF h1 extract_arxiv_id_new_style_http h3 h4 h5]
  from main have unmarked: "\<not> is_url_processed (manager (?W\<lparr>net := Suc (Suc 0)\<rparr>)) ''http://arxiv.org/abs/2301.00001''"
    by (elim conjE)
  from main have "process_urls ?E ''pdfs'' ''notes/a.md'' [''http://arxiv.org/abs/2301.00001''] ?W []
      = process_urls ?E ''pdfs'' ''notes/a.md'' [] (?W\<lparr>net := Suc (Suc 0)\<rparr>) []"
    by (elim conjE)
  then have run: "process_urls ?E ''pdfs'' ''notes/a.md'' [''http://arxiv.org/abs/2301.00001''] ?W []
      = (Inr [], ?W\<lparr>net := Suc (Suc 0)\<rparr>)"
    by (simp only: process_urls.simps)
  from run unmarked show ?thesis by (rule conjI)
qed

text \<open>
  Claim C9. \<open>download\<close> never raises an exception of a class under \<open>Exception\<close>: when
  the request raises one, when the status code is from 400 to 599, and when saving the
  body raises one, it returns \<open>False\<close>. When it returns \<open>False\<close> for a link whose record
  was found, the loop body appends the triple of the link, the record and no PDF path to
  the results, records the link with its title and identifier, and sleeps 2 seconds; the
  triple is among the results of a run that returns; and the citation of the record
  without a PDF path has no \<open>(PDF)\<close> fragment.
\<close>

theorem download_failure_keeps_citation:
  assumes "\<not> is_url_processed (manager w) url"
    and "extract_arxiv_id url = Some aid" and "aid \<noteq> []"
    and "process_arxiv env aid w = (Inr (Some p), w1)"
    and "generate_filename p = Inr pdf_filename"
    and "download env (pdf_url p) (os_path_join env pdf_dir pdf_filename) (net w1) = (Inr False, n2)"
    and "datetime_now env n2 = (stamp, n3)"
  shows "process_url env pdf_dir filepath url w results
           = (Inr (results @ [(url, p, None)]),
              w1\<lparr>manager := mark_url_processed (manager w1) url
                              [(''title'', title p), (''arxiv_id'', aid)] stamp,
                 net := n3, paused := paused w1 @ [2]\<rparr>)
       \<and> is_url_processed
           (mark_url_processed (manager w1) url [(''title'', title p), (''arxiv_id'', aid)] stamp)
           url
       \<and> (\<forall>rs w'. process_urls env pdf_dir filepath (url # urls) w results = (Inr rs, w')
             \<longrightarrow> (url, p, None) \<in> set rs \<and> is_url_processed (manager w') url)
       \<and> to_markdown p None =
           ''**'' @ title p @ ''**. '' @ format_authors p 3 @ ''. '' @ venue p @ '', '' @ year p
           @ (if truthy (arxiv_id p)
              then '' ([arXiv](https://arxiv.org/abs/'' @ the (arxiv_id p) @ ''))'' else [])
           @ (if truthy (doi p) then '' ([DOI](https://doi.org/'' @ the (doi p) @ ''))'' else [])
           @ (case citations p of
                Some n \<Rightarrow> '' (Citations: '' @ str_int n @ '')''
              | None \<Rightarrow> '' (Citations: N/A)'')
       \<and> (\<forall>u path n msg. fst (download env u path n) \<noteq> Inl (Error msg))
       \<and> (\<forall>u path n n' msg. http_get env u n = (Inl (Error msg), n')
             \<longrightarrow> download env u path n = (Inr False, n'))
       \<and> (\<forall>u path n n' status. http_get env u n = (Inr status, n') \<and> 400 \<le> status \<and> status < 600
             \<longrightarrow> download env u path n = (Inr False, n'))
       \<and> (\<forall>u path n n' n'' status msg.
             http_get env u n = (Inr status, n') \<and> \<not> (400 \<le> status \<and> status < 600)
             \<and> save_body env path n' = (Inl (Error msg), n'')
             \<longrightarrow> download env u path n = (Inr False, n''))"
proof -
  let ?w2 = "w1\<lparr>manager := mark_url_processed (manager w1) url
                              [(''title'', title p), (''arxiv_id'', aid)] stamp,
                 net := n3, paused := paused w1 @ [2]\<rparr>"
  have step: "process_url env pdf_dir filepath url w results
      = (Inr (results @ [(url, p, None)]), ?w2)"
    using assms by (simp add: process_url_def truthy_def)
  have marked: "is_url_processed
           (mark_url_processed (manager w1) url [(''title'', title p), (''arxiv_id'', aid)] stamp)
           url"
    by (rule mark_url_processed_marks)
  have later: "(url, p, None) \<in> set rs \<and> is_url_processed (manager w') url"
    if run: "process_urls env pdf_dir filepath (url # urls) w results = (Inr rs, w')" for rs w'
  proof -
    from run step
    have rest: "process_urls env pdf_dir filepath urls ?w2 (results @ [(url, p, None)]) = (Inr rs, w')"
      by simp
    from process_urls_results [OF rest] have "(url, p, None) \<in> set rs" by auto
    moreover from marked have "is_url_processed (manager ?w2) url" by simp
    with rest have "is_url_processed (manager w') url" by (rule process_urls_keeps_processed)
    ultimately show ?thesis by simp
  qed
  have d1: "download env u path n = (Inr False, n')"
    if "http_get env u n = (Inl (Error msg), n')" for u path n n' msg
    using that by (simp add: download_def download_handler_def)
  have d2: "download env u path n = (Inr False, n')"
    if "http_get env u n = (Inr status, n') \<and> 400 \<le> status \<and> status < 600"
    for u path n n' status
    using that by (simp add: download_def)
  have d3: "download env u path n = (Inr False, n'')"
    if "http_get env u n = (Inr status, n') \<and> \<not> (400 \<le> status \<and> status < 600)
             \<and> save_body env path n' = (Inl (Error msg), n'')"
    for u path n n' n'' status msg
    using that by (auto simp: download_def download_handler_def)
  have c3: "\<forall>rs w'. process_urls env pdf_dir filepath (url # urls) w results = (Inr rs, w')
             \<longrightarrow> (url, p, None) \<in> set rs \<and> is_url_processed (manager w') url"
    by (intro allI impI) (rule later)
  have c5: "\<forall>u path n msg. fst (download env u path n) \<noteq> Inl (Error msg)"
    by (intro allI) (rule download_no_error)
  have c6: "\<forall>u path n n' msg. http_get env u n = (Inl (Error msg), n')
             \<longrightarrow> download env u path n = (Inr False, n')"
    by (intro allI impI) (rule d1)
  have c7: "\<forall>u path n n' status. http_get env u n = (Inr status, n') \<and> 400 \<le> status \<and> status < 600
             \<longrightarrow> download env u path n = (Inr False, n')"
    by (intro allI impI) (rule d2)
  have c8: "\<forall>u path n n' n'' status msg.
             http_get env u n = (Inr status, n') \<and> \<not> (400 \<le> status \<and> status < 600)
             \<and> save_body env path n' = (Inl (Error msg), n'')
             \<longrightarrow> download env u path n = (Inr False, n'')"
    by (intro allI impI) (rule d3)
  from step marked c3 to_markdown_no_pdf [of p] c5 c6 c7 c8
  show ?thesis by (intro conjI)
qed

theorem download_failure_keeps_citation_witness:
  "process_url
     \<lparr>ss_full_paper_info = (\<lambda>a n. (Inr (Some
       \<lparr>title = ''Foo'', authors = [''Jane Doe''], venue = ''arXiv'', year = ''2023'',
        arxiv_id = Some ''2301.00001'', doi = None,
        pdf_url = Some ''https://arxiv.org/pdf/2301.00001.pdf'', citations = Some 5\<rparr>), Suc n)),
      arxiv_paper_info = (\<lambda>a n. (Inr None, Suc n)),
      ss_citations = (\<lambda>a n. (Inr None, Suc n)),
      http_get = (\<lambda>u n. (Inl (Error ''timeout''), Suc n)),
      save_body = (\<lambda>path n. (Inr (), Suc n)),
      datetime_now = (\<lambda>n. (''2024-01-01T10:00:00'', n)),
      os_path_join = (\<lambda>a b. a @ ''/'' @ b),
      os_path_dirname = (\<lambda>path. ''notes''),
      os_path_relpath = (\<lambda>path start. Inr path)\<rparr>
     ''pdfs'' ''notes/a.md'' ''http://arxiv.org/abs/2301.00001''
     \<lparr>manager = \<lparr>state = empty_state, saved = empty_state\<rparr>, net = 0 :: nat, paused = []\<rparr> []
   = (Inr [(''http://arxiv.org/abs/2301.00001'',
            \<lparr>title = ''Foo'', authors = [''Jane Doe''], venue = ''arXiv'', year = ''2023'',
        arxiv_id = Some ''2301.00001'', doi = None,
        pdf_url = Some ''https://arxiv.org/pdf/2301.00001.pdf'', citations = Some 5\<rparr>,
            None)],
      \<lparr>manager = \<lparr>state = empty_state, saved = empty_state\<rparr>, net = 0 :: nat, paused = []\<rparr>
        \<lparr>net := Suc 0,
          manager := mark_url_processed \<lparr>state = empty_state, saved = empty_state\<rparr>
                       ''http://arxiv.org/abs/2301.00001''
                       [(''title'', ''Foo''), (''arxiv_id'', ''2301.00001'')] ''2024-01-01T10:00:00'',
          net := Suc (Suc 0), paused := [2]\<rparr>)
   \<and> download
       \<lparr>ss_full_paper_info = (\<lambda>a n. (Inr (Some
       \<lparr>title = ''Foo'', authors = [''Jane Doe''], venue = ''arXiv'', year = ''2023'',
        arxiv_id = Some ''2301.00001'', doi = None,
        pdf_url = Some ''https://arxiv.org/pdf/2301.00001.pdf'', citations = Some 5\<rparr>), Suc n)),
      arxiv_paper_info = (\<lambda>a n. (Inr None, Suc n)),
      ss_citations = (\<lambda>a n. (Inr None, Suc n)),
      http_get = (\<lambda>u n. (Inl (Error ''timeout''), Suc n)),
      save_body = (\<lambda>path n. (Inr (), Suc n)),
      datetime_now = (\<lambda>n. (''2024-01-01T10:00:00'', n)),
      os_path_join = (\<lambda>a b. a @ ''/'' @ b),
      os_path_dirname = (\<lambda>path. ''notes''),
      os_path_relpath = (\<lambda>path start. Inr path)\<rparr>
       (Some ''https://arxiv.org/pdf/2301.00001.pdf'') ''pdfs/Doe_2023_Foo.pdf'' (Suc 0)
     = (Inr False, Suc (Suc 0))"
proof -
  let ?P = "\<lparr>title = ''Foo'', authors = [''Jane Doe''], venue = ''arXiv'', year = ''2023'',
        arxiv_id = Some ''2301.00001'', doi = None,
        pdf_url = Some ''https://arxiv.org/pdf/2301.00001.pdf'', citations = Some 5\<rparr>"
  let ?E = "\<lparr>ss_full_paper_info = (\<lambda>a n. (Inr (Some
       \<lparr>title = ''Foo'', authors = [''Jane Doe''], venue = ''arXiv'', year = ''2023'',
        arxiv_id = Some ''2301.00001'', doi = None,
        pdf_url = Some ''https://arxiv.org/pdf/2301.00001.pdf'', citations = Some 5\<rparr>), Suc n)),
      arxiv_paper_info = (\<lambda>a n. (Inr None, Suc n)),
      ss_citations = (\<lambda>a n. (Inr None, Suc n)),
      http_get = (\<lambda>u n. (Inl (Error ''timeout''), Suc n)),
      save_body = (\<lambda>path n. (Inr (), Suc n)),
      datetime_now = (\<lambda>n. (''2024-01-01T10:00:00'', n)),
      os_path_join = (\<lambda>a b. a @ ''/'' @ b),
      os_path_dirname = (\<lambda>path. ''notes''),
      os_path_relpath = (\<lambda>path start. Inr path)\<rparr>"
  let ?W = "\<lparr>manager = \<lparr>state = empty_state, saved = empty_state\<rparr>, net = 0 :: nat, paused = []\<rparr>"
  have h1: "\<not> is_url_processed (manager ?W) ''http://arxiv.org/abs/2301.00001''"
    by (simp add: is_url_processed_def empty_state_def)
  have h3: "''2301.00001'' \<noteq> []" by simp
  have h4: "process_arxiv ?E ''2301.00001'' ?W = (Inr (Some ?P), ?W\<lparr>net := Suc 0\<rparr>)"
    by (simp add: process_arxiv_def)
  have h5: "generate_filename ?P = Inr ''Doe_2023_Foo.pdf''"
    by code_simp
  have get: "http_get ?E (Some ''https://arxiv.org/pdf/2301.00001.pdf'') (Suc 0)
      = (Inl (Error ''timeout''), Suc (Suc 0))"
    by simp
  have h6: "download ?E (pdf_url ?P) (os_path_join ?E ''pdfs'' ''Doe_2023_Foo.pdf'')
      (net (?W\<lparr>net := Suc 0\<rparr>)) = (Inr False, Suc (Suc 0))"
    by (simp add: download_def download_handler_def)
  have h7: "datetime_now ?E (Suc (Suc 0)) = (''2024-01-01T10:00:00'', Suc (Suc 0))" by simp
  note main = download_failure_keeps_citation
    [where env = ?E and w = ?W and pdf_dir = "''pdfs''" and filepath = "''notes/a.md''"
       and results = "[]" and urls = "[]",
     OF h1 extract_arxiv_id_new_style_http h3 h4 h5 h6 h7]
  from main have "process_url ?E ''pdfs'' ''notes/a.md'' ''http://arxiv.org/abs/2301.00001'' ?W []
      = (Inr ([] @ [(''http://arxiv.org/abs/2301.00001'', ?P, None)]),
         (?W\<lparr>net := Suc 0\<rparr>)
           \<lparr>manager := mark_url_processed (manager (?W\<lparr>net := Suc 0\<rparr>))
                         ''http://arxiv.org/abs/2301.00001''
                         [(''title'', title ?P), (''arxiv_id'', ''2301.00001'')] ''2024-01-01T10:00:00'',
             net := Suc (Suc 0), paused := paused (?W\<lparr>net := Suc 0\<rparr>) @ [2]\<rparr>)"
    by (rule conjunct1)
  then have step: "process_url ?E ''pdfs'' ''notes/a.md'' ''http://arxiv.org/abs/2301.00001'' ?W []
      = (Inr [(''http://arxiv.org/abs/2301.00001'', ?P, None)],
         ?W\<lparr>net := Suc 0,
             manager := mark_url_processed \<lparr>state = empty_state, saved = empty_state\<rparr>
                         ''http://arxiv.org/abs/2301.00001''
                         [(''title'', ''Foo''), (''arxiv_id'', ''2301.00001'')] ''2024-01-01T10:00:00'',
             net := Suc (Suc 0), paused := [2]\<rparr>)"
    by simp
  from main have "\<forall>u path n n' msg. http_get ?E u n = (Inl (Error msg), n')
             \<longrightarrow> download ?E u path n = (Inr False, n')"
    by (elim conjE)
  then have "http_get ?E (Some ''https://arxiv.org/pdf/2301.00001.pdf'') (Suc 0)
      = (Inl (Error ''timeout''), Suc (Suc 0))
     \<longrightarrow> download ?E (Some ''https://arxiv.org/pdf/2301.00001.pdf'') ''pdfs/Doe_2023_Foo.pdf'' (Suc 0)
         = (Inr False, Suc (Suc 0))"
    by (elim allE)
  then have fails: "download ?E (Some ''https://arxiv.org/pdf/2301.00001.pdf'')
      ''pdfs/Doe_2023_Foo.pdf'' (Suc 0) = (Inr False, Suc (Suc 0))"
    using get by (rule mp)
  from step fails show ?thesis by (rule conjI)
qed

text \<open>
  Claim C10. For a URL with no arXiv identifier and with a DOI: the loop body, when the
  URL is not yet recorded, records it with the snapshot that holds the DOI alone and
  leaves the results as they are; when the URL is recorded, the loop body does nothing.
  A run of the loop that returns has recorded every such URL of its list and has added no
  triple with such a URL, and so for \<open>process_file\<close> on the URLs of a note.
\<close>

theorem doi_link_marked_not_cited:
  assumes "\<not> truthy (extract_arxiv_id url)" and "extract_doi url = Some d" and "d \<noteq> []"
  shows "(\<not> is_url_processed (manager w) url \<and> datetime_now env (net w) = (stamp, n1)
            \<longrightarrow> process_url env pdf_dir filepath url w results
                  = (Inr results,
                     w\<lparr>manager := mark_url_processed (manager w) url [(''doi'', d)] stamp,
                       net := n1\<rparr>))
       \<and> processed_urls (state (mark_url_processed (manager w) url [(''doi'', d)] stamp)) url
           = Some \<lparr>processed_at = stamp, info = [(''doi'', d)]\<rparr>
       \<and> (is_url_processed (manager w) url
            \<longrightarrow> process_url env pdf_dir filepath url w results = (Inr results, w))
       \<and> (process_urls env pdf_dir filepath urls w results = (Inr rs, w')
            \<longrightarrow> (url \<in> set urls \<longrightarrow> is_url_processed (manager w') url)
                \<and> (url \<notin> fst ` set results \<longrightarrow> url \<notin> fst ` set rs))
       \<and> (process_file env pdf_dir filepath file w = (Inr rs, w')
            \<longrightarrow> (url \<in> set (find_urls_in_text (read_text file))
                   \<longrightarrow> is_url_processed (manager w') url)
                \<and> url \<notin> fst ` set rs)"
proof -
  have doi: "truthy (extract_doi url)" using assms(2,3) by (simp add: truthy_def)
  have step: "process_url env pdf_dir filepath url w results
                  = (Inr results,
                     w\<lparr>manager := mark_url_processed (manager w) url [(''doi'', d)] stamp,
                       net := n1\<rparr>)"
    if "\<not> is_url_processed (manager w) url \<and> datetime_now env (net w) = (stamp, n1)"
    using that assms(1,2) doi by (simp add: process_url_def)
  have entry: "processed_urls (state (mark_url_processed (manager w) url [(''doi'', d)] stamp)) url
           = Some \<lparr>processed_at = stamp, info = [(''doi'', d)]\<rparr>"
    by (simp add: mark_url_processed_def save_state_def)
  have skip: "process_url env pdf_dir filepath url w results = (Inr results, w)"
    if "is_url_processed (manager w) url"
    using that by (simp add: process_url_def)
  have run: "(url \<in> set urls' \<longrightarrow> is_url_processed (manager w') url)
                \<and> (url \<notin> fst ` set results' \<longrightarrow> url \<notin> fst ` set rs)"
    if r: "process_urls env pdf_dir filepath urls' w results' = (Inr rs, w')" for urls' results'
  proof -
    have "is_url_processed (manager w') url" if "url \<in> set urls'"
      using assms(1) doi r that by (rule process_urls_marks_doi)
    moreover have "url \<notin> fst ` set rs" if "url \<notin> fst ` set results'"
    proof -
      from process_urls_results [OF r] obtain new where new: "rs = results' @ new"
        "\<forall>(u, p, pdf)\<in>set new. u \<in> set urls' \<and> truthy (extract_arxiv_id u)" by blast
      from new(2) assms(1) have "url \<notin> fst ` set new" by auto
      with that new(1) show ?thesis by auto
    qed
    ultimately show ?thesis by simp
  qed
  have whole: "(url \<in> set (find_urls_in_text (read_text file))
                   \<longrightarrow> is_url_processed (manager w') url)
                \<and> url \<notin> fst ` set rs"
    if "process_file env pdf_dir filepath file w = (Inr rs, w')"
    using run [of "find_urls_in_text (read_text file)" "[]"] that
    by (simp add: process_file_def)
  from step have c1: "\<not> is_url_processed (manager w) url \<and> datetime_now env (net w) = (stamp, n1)
            \<longrightarrow> process_url env pdf_dir filepath url w results
                  = (Inr results,
                     w\<lparr>manager := mark_url_processed (manager w) url [(''doi'', d)] stamp,
                       net := n1\<rparr>)"
    by (rule impI)
  from skip have c3: "is_url_processed (manager w) url
            \<longrightarrow> process_url env pdf_dir filepath url w results = (Inr results, w)"
    by (rule impI)
  from run [of urls results]
  have c4: "process_urls env pdf_dir filepath urls w results = (Inr rs, w')
            \<longrightarrow> (url \<in> set urls \<longrightarrow> is_url_processed (manager w') url)
                \<and> (url \<notin> fst ` set results \<longrightarrow> url \<notin> fst ` set rs)"
    by (rule impI)
  from whole have c5: "process_file env pdf_dir filepath file w = (Inr rs, w')
            \<longrightarrow> (url \<in> set (find_urls_in_text (read_text file))
                   \<longrightarrow> is_url_processed (manager w') url)
                \<and> url \<notin> fst ` set rs"
    by (rule impI)
  from c1 entry c3 c4 c5 show ?thesis by (intro conjI)
qed

theorem doi_link_marked_not_cited_witness:
  "process_file
     \<lparr>ss_full_paper_info = (\<lambda>a n. (Inr None, Suc n)),
      arxiv_paper_info = (\<lambda>a n. (Inr None, Suc n)),
      ss_citations = (\<lambda>a n. (Inr None, Suc n)),
      http_get = (\<lambda>u n. (Inl (Error ''timeout''), Suc n)),
      save_body = (\<lambda>path n. (Inr (), Suc n)),
      datetime_now = (\<lambda>n. (''2024-01-01T10:00:00'', n)),
      os_path_join = (\<lambda>a b. a @ ''/'' @ b),
      os_path_dirname = (\<lambda>path. ''notes''),
      os_path_relpath = (\<lambda>path start. Inr path)\<rparr>
     ''pdfs'' ''notes/a.md'' ''doi:10.1000/x''
     \<lparr>manager = \<lparr>state = empty_state, saved = empty_state\<rparr>, net = 0 :: nat, paused = []\<rparr>
   = (Inr [],
      \<lparr>manager = \<lparr>state = empty_state, saved = empty_state\<rparr>, net = 0 :: nat, paused = []\<rparr>
        \<lparr>manager := mark_url_processed
                       (manager \<lparr>manager = \<lparr>state = empty_state, saved = empty_state\<rparr>, net = 0 :: nat, paused = []\<rparr>)
                       ''doi:10.1000/x'' [(''doi'', ''10.1000/x'')] ''2024-01-01T10:00:00'',
          net := 0\<rparr>)
   \<and> is_url_processed
       (manager
         (\<lparr>manager = \<lparr>state = empty_state, saved = empty_state\<rparr>, net = 0 :: nat, paused = []\<rparr>
            \<lparr>manager := mark_url_processed
                       (manager \<lparr>manager = \<lparr>state = empty_state, saved = empty_state\<rparr>, net = 0 :: nat, paused = []\<rparr>)
                       ''doi:10.1000/x'' [(''doi'', ''10.1000/x'')] ''2024-01-01T10:00:00'',
              net := 0\<rparr>))
       ''doi:10.1000/x''"
proof -
  let ?E = "\<lparr>ss_full_paper_info = (\<lambda>a n. (Inr None, Suc n)),
      arxiv_paper_info = (\<lambda>a n. (Inr None, Suc n)),
      ss_citations = (\<lambda>a n. (Inr None, Suc n)),
      http_get = (\<lambda>u n. (Inl (Error ''timeout''), Suc n)),
      save_body = (\<lambda>path n. (Inr (), Suc n)),
      datetime_now = (\<lambda>n. (''2024-01-01T10:00:00'', n)),
      os_path_join = (\<lambda>a b. a @ ''/'' @ b),
      os_path_dirname = (\<lambda>path. ''notes''),
      os_path_relpath = (\<lambda>path start. Inr path)\<rparr>"
  let ?W = "\<lparr>manager = \<lparr>state = empty_state, saved = empty_state\<rparr>, net = 0 :: nat, paused = []\<rparr>"
  let ?W2 = "?W\<lparr>manager := mark_url_processed (manager ?W) ''doi:10.1000/x''
                          [(''doi'', ''10.1000/x'')] ''2024-01-01T10:00:00'',
                net := 0\<rparr>"
  have hA: "\<not> truthy (extract_arxiv_id ''doi:10.1000/x'')"
    using extract_doi_url by (simp add: truthy_def)
  have hB: "extract_doi ''doi:10.1000/x'' = Some ''10.1000/x''"
    using extract_doi_url by (rule conjunct2)
  have hC: "''10.1000/x'' \<noteq> []" by simp
  note main = doi_link_marked_not_cited
    [where env = ?E and w = ?W and pdf_dir = "''pdfs''" and filepath = "''notes/a.md''"
       and results = "[]" and urls = "[]" and stamp = "''2024-01-01T10:00:00''" and ?n1.0 = 0
       and rs = "[]" and w' = ?W2 and ?file = "''doi:10.1000/x''",
     OF hA hB hC]
  have pre: "\<not> is_url_processed (manager ?W) ''doi:10.1000/x''
      \<and> datetime_now ?E (net ?W) = (''2024-01-01T10:00:00'', 0)"
    by (simp add: is_url_processed_def empty_state_def)
  from main have "\<not> is_url_processed (manager ?W) ''doi:10.1000/x''
      \<and> datetime_now ?E (net ?W) = (''2024-01-01T10:00:00'', 0)
      \<longrightarrow> process_url ?E ''pdfs'' ''notes/a.md'' ''doi:10.1000/x'' ?W [] = (Inr [], ?W2)"
    by (rule conjunct1)
  then have step: "process_url ?E ''pdfs'' ''notes/a.md'' ''doi:10.1000/x'' ?W [] = (Inr [], ?W2)"
    using pre by (rule mp)
  have found: "find_urls_in_text (read_text ''doi:10.1000/x'') = [''doi:10.1000/x'']"
    by code_simp
  have run: "process_file ?E ''pdfs'' ''notes/a.md'' ''doi:10.1000/x'' ?W = (Inr [], ?W2)"
    unfolding process_file_def found
    by (simp only: process_urls.simps step prod.case sum.case)
  from main have "process_file ?E ''pdfs'' ''notes/a.md'' ''doi:10.1000/x'' ?W = (Inr [], ?W2)
      \<longrightarrow> (''doi:10.1000/x'' \<in> set (find_urls_in_text (read_text ''doi:10.1000/x''))
             \<longrightarrow> is_url_processed (manager ?W2) ''doi:10.1000/x'')
          \<and> ''doi:10.1000/x'' \<notin> fst ` set ([] :: (string \<times> paper_info \<times> string option) list)"
    by (elim conjE)
  then have "(''doi:10.1000/x'' \<in> set (find_urls_in_text (read_text ''doi:10.1000/x''))
             \<longrightarrow> is_url_processed (manager ?W2) ''doi:10.1000/x'')
          \<and> ''doi:10.1000/x'' \<notin> fst ` set ([] :: (string \<times> paper_info \<times> string option) list)"
    using run by (rule mp)
  then have "''doi:10.1000/x'' \<in> set (find_urls_in_text (read_text ''doi:10.1000/x''))
             \<longrightarrow> is_url_processed (manager ?W2) ''doi:10.1000/x''"
    by (rule conjunct1)
  moreover have "''doi:10.1000/x'' \<in> set (find_urls_in_text (read_text ''doi:10.1000/x''))"
    unfolding found by (rule list.set_intros(1))
  ultimately have marked: "is_url_processed (manager ?W2) ''doi:10.1000/x''"
    by (rule mp)
  from run marked show ?thesis by (rule conjI)
qed

end
